theory Spec2Isabelle
  imports Main "HOL-Library.AList"
begin

section \<open>The time-series cache of \<^verbatim>\<open>src/app/server.js\<close>\<close>

text \<open>
  The class \<^verbatim>\<open>TimeSeriesCache\<close> keeps a JavaScript \<^verbatim>\<open>Map\<close> from keys to
  entries \<^verbatim>\<open>{ data, timestamp }\<close>. The embedding below follows the class method by
  method. What the code takes from its environment is made explicit:
  \<^item> \<^verbatim>\<open>Date.now()\<close> is the field \<open>clock\<close> of the state (milliseconds, an integer);
  \<^item> \<^verbatim>\<open>console.log\<close> and every call of a fetch function append an event to the
    field \<open>trace\<close>, so that "the loader was called once" is a statement about the trace;
  \<^item> a fetch function is a function of the time of the call that gives the outcome
    of the awaited promise (a thrown value or the data) and the time the call took;
  \<^item> an exception or a rejected promise is the \<open>Inl\<close> branch of a sum.

  Keys are strings, as line 104 builds them. The two durations are integers, as the
  defaults of line 6 are. JavaScript runs one piece of code at a time and switches
  only at an \<^verbatim>\<open>await\<close>: \<open>get\<close> and \<open>set\<close> are single steps, and an \<^verbatim>\<open>async\<close>
  function is a step up to its \<^verbatim>\<open>await\<close> and a step after it.
\<close>

subsection \<open>Values\<close>

text \<open>
  The payload of an entry is any JavaScript value. Numbers are kept as integers with
  \<open>NaN\<close> apart: the cache only ever tests a payload for truthiness.
\<close>

datatype jsval =
    JUndefined
  | JNull
  | JBool bool
  | JNum int
  | JNaN
  | JStr string
  | JArr "jsval list"
  | JObj "(string \<times> jsval) list"

text \<open>JavaScript's \<^verbatim>\<open>ToBoolean\<close>: what \<^verbatim>\<open>if (cachedData)\<close> tests. Every array and
  object is truthy, also the empty ones.\<close>

fun truthy :: "jsval \<Rightarrow> bool" where
  "truthy JUndefined = False"
| "truthy JNull = False"
| "truthy (JBool b) = b"
| "truthy (JNum n) = (n \<noteq> 0)"
| "truthy JNaN = False"
| "truthy (JStr s) = (s \<noteq> [])"
| "truthy (JArr xs) = True"
| "truthy (JObj fs) = True"

text \<open>What an \<^verbatim>\<open>await\<close> can throw: the \<^verbatim>\<open>TypeError\<close> of calling something that is
  not a function, or the \<^verbatim>\<open>Error\<close> of a fetch function (line 91).\<close>

datatype thrown = TypeError string | Error string

subsection \<open>The state\<close>

record entry =
  data :: jsval
  timestamp :: int

datatype event =
    ConsoleLog "string list"
  | CallLoader string
  | CallFetchFunction string

text \<open>A fetch function called at a time: the outcome, and the milliseconds it took.\<close>

type_synonym loader = "int \<Rightarrow> (thrown + jsval) \<times> nat"

text \<open>
  The fields of \<^verbatim>\<open>this\<close> (lines 6 to 11) and the environment. The \<^verbatim>\<open>Map\<close> is an
  association list in insertion order, which is the order its iterator follows.
  \<open>fetchFunction\<close> is the property \<^verbatim>\<open>this.fetchFunction\<close> that line 49 reads: \<open>None\<close>
  is \<^verbatim>\<open>undefined\<close>.
\<close>

record TimeSeriesCache =
  cache :: "(string \<times> entry) list"
  expirationDuration :: int
  refreshInterval :: int
  fetchFunction :: "(string \<Rightarrow> loader) option"
  clock :: int
  trace :: "event list"

text \<open>
  The constructor (lines 6 to 11) at time \<open>t\<close>. Neither the constructor nor any other
  line of the file assigns \<^verbatim>\<open>fetchFunction\<close>, and the class has no method of that
  name: the property is \<^verbatim>\<open>undefined\<close>. \<^verbatim>\<open>startAutoRefresh\<close> only registers the timer,
  whose callback is \<open>startAutoRefresh\<close> below.
\<close>

definition new_TimeSeriesCache :: "int \<Rightarrow> int \<Rightarrow> int \<Rightarrow> TimeSeriesCache" where
  "new_TimeSeriesCache expiration interval t =
     \<lparr>cache = [], expirationDuration = expiration, refreshInterval = interval,
      fetchFunction = None, clock = t, trace = []\<rparr>"

text \<open>The default arguments of line 6, as line 96 constructs the cache.\<close>

definition default_TimeSeriesCache :: "int \<Rightarrow> TimeSeriesCache" where
  "default_TimeSeriesCache t = new_TimeSeriesCache 600000 60000 t"

text \<open>A step of the environment: the clock reads \<open>t\<close> when the next call starts.\<close>

definition at_time :: "int \<Rightarrow> TimeSeriesCache \<Rightarrow> TimeSeriesCache" where
  "at_time t s = s\<lparr>clock := t\<rparr>"

definition log :: "string list \<Rightarrow> TimeSeriesCache \<Rightarrow> TimeSeriesCache" where
  "log args s = s\<lparr>trace := trace s @ [ConsoleLog args]\<rparr>"

definition record_call :: "event \<Rightarrow> TimeSeriesCache \<Rightarrow> TimeSeriesCache" where
  "record_call ev s = s\<lparr>trace := trace s @ [ev]\<rparr>"

text \<open>The time an \<^verbatim>\<open>await\<close> takes.\<close>

definition elapse :: "nat \<Rightarrow> TimeSeriesCache \<Rightarrow> TimeSeriesCache" where
  "elapse d s = s\<lparr>clock := clock s + int d\<rparr>"

subsection \<open>isExpired, set, get (lines 13 to 28)\<close>

definition isExpired :: "TimeSeriesCache \<Rightarrow> entry \<Rightarrow> bool" where
  "isExpired s e = (clock s - timestamp e > expirationDuration s)"

text \<open>\<^verbatim>\<open>Map.set\<close> replaces the value of a key in place and appends a new key.\<close>

definition set_cache :: "string \<Rightarrow> jsval \<Rightarrow> TimeSeriesCache \<Rightarrow> TimeSeriesCache" where
  "set_cache key d s =
     s\<lparr>cache := AList.update key \<lparr>data = d, timestamp = clock s\<rparr> (cache s)\<rparr>"

text \<open>\<open>get\<close> returns the value and the state: \<^verbatim>\<open>null\<close> is \<open>JNull\<close>.\<close>

definition get :: "string \<Rightarrow> TimeSeriesCache \<Rightarrow> jsval \<times> TimeSeriesCache" where
  "get key s =
     (case map_of (cache s) key of
        Some e \<Rightarrow>
          if \<not> isExpired s e then (data e, s)
          else (JNull, s\<lparr>cache := AList.delete key (cache s)\<rparr>)
      | None \<Rightarrow> (JNull, s\<lparr>cache := AList.delete key (cache s)\<rparr>))"

subsection \<open>fetchData (lines 30 to 42)\<close>

text \<open>
  The function is \<^verbatim>\<open>async\<close> with one \<^verbatim>\<open>await\<close>. \<open>fetchData_begin\<close> is the code that
  runs before the function suspends: the lookup, the log line and, on a miss, the call
  of the loader. It gives \<open>Some v\<close> when the function returned \<open>v\<close> without suspending
  and \<open>None\<close> when it is suspended at line 39. \<open>fetchData_resume\<close> is the code that
  runs when the awaited promise settles with the given outcome.
\<close>

definition fetchData_begin ::
    "string \<Rightarrow> TimeSeriesCache \<Rightarrow> jsval option \<times> TimeSeriesCache" where
  "fetchData_begin key s =
     (case get key s of
        (cachedData, s1) \<Rightarrow>
          if truthy cachedData then (Some cachedData, log [''Cache hit for'', key] s1)
          else (None, record_call (CallLoader key) (log [''Cache miss for'', key] s1)))"

definition fetchData_resume ::
    "string \<Rightarrow> thrown + jsval \<Rightarrow> TimeSeriesCache \<Rightarrow> (thrown + jsval) \<times> TimeSeriesCache" where
  "fetchData_resume key outcome s =
     (case outcome of
        Inl e \<Rightarrow> (Inl e, s)
      | Inr newData \<Rightarrow> (Inr newData, set_cache key newData s))"

text \<open>One call of \<^verbatim>\<open>fetchData\<close> run to its end with nothing else in between.\<close>

definition fetchData ::
    "string \<Rightarrow> loader \<Rightarrow> TimeSeriesCache \<Rightarrow> (thrown + jsval) \<times> TimeSeriesCache" where
  "fetchData key fetchFunction' s =
     (case fetchData_begin key s of
        (Some cachedData, s1) \<Rightarrow> (Inr cachedData, s1)
      | (None, s1) \<Rightarrow>
          (case fetchFunction' (clock s1) of
             (outcome, d) \<Rightarrow> fetchData_resume key outcome (elapse d s1)))"

subsection \<open>startAutoRefresh (lines 44 to 54)\<close>

text \<open>
  The loop of the timer's callback over the entries still to visit. Calling
  \<^verbatim>\<open>this.fetchFunction\<close> when it is \<^verbatim>\<open>undefined\<close> throws a \<^verbatim>\<open>TypeError\<close>. The loop
  has no \<^verbatim>\<open>try\<close>: whatever line 49 throws ends the callback, whose promise is
  rejected with it (\<open>Some e\<close>); \<open>None\<close> is the pass that reached its end.
\<close>

fun refreshLoop ::
    "(string \<times> entry) list \<Rightarrow> TimeSeriesCache \<Rightarrow> thrown option \<times> TimeSeriesCache" where
  "refreshLoop [] s = (None, s)"
| "refreshLoop ((key, e) # rest) s =
     (if \<not> isExpired s e then
        (let s1 = log [''Refreshing cache for'', key] s in
         case fetchFunction s1 of
           None \<Rightarrow> (Some (TypeError ''this.fetchFunction is not a function''), s1)
         | Some f \<Rightarrow>
             (case f key (clock s1) of
                (Inl err, d) \<Rightarrow> (Some err, elapse d (record_call (CallFetchFunction key) s1))
              | (Inr refreshedData, d) \<Rightarrow>
                  refreshLoop rest
                    (set_cache key refreshedData
                       (elapse d (record_call (CallFetchFunction key) s1)))))
      else refreshLoop rest s)"

text \<open>
  One firing of the timer: the iterator of \<^verbatim>\<open>this.cache.entries()\<close> starts at the
  first entry. The loop only ever replaces the value of the key it is at, which leaves
  the order and the later entries as they were, so the live iterator visits the entries
  of the list the pass started with. The pass is run to its end with no other call in
  between.
\<close>

definition startAutoRefresh :: "TimeSeriesCache \<Rightarrow> thrown option \<times> TimeSeriesCache" where
  "startAutoRefresh s = refreshLoop (cache s) s"

subsection \<open>The cache key (line 104)\<close>

definition cacheKey :: "string \<Rightarrow> string \<Rightarrow> string \<Rightarrow> string \<Rightarrow> string" where
  "cacheKey symbol period start end' =
     symbol @ ''-'' @ period @ ''-'' @ start @ ''-'' @ end'"

text \<open>The check of line 100 on the four query parameters, taken as strings.\<close>

definition missing_parameters :: "string \<Rightarrow> string \<Rightarrow> string \<Rightarrow> string \<Rightarrow> bool" where
  "missing_parameters symbol period start end' =
     (symbol = [] \<or> period = [] \<or> start = [] \<or> end' = [])"

subsection \<open>Sequences of calls\<close>

text \<open>A caller's calls of \<^verbatim>\<open>get\<close> and \<^verbatim>\<open>set\<close>, each at the time the clock reads.\<close>

datatype call = Get string | Set string jsval

fun apply_call :: "call \<Rightarrow> TimeSeriesCache \<Rightarrow> jsval option \<times> TimeSeriesCache" where
  "apply_call (Get k) s = (case get k s of (v, s') \<Rightarrow> (Some v, s'))"
| "apply_call (Set k d) s = (None, set_cache k d s)"

text \<open>What the calls \<^verbatim>\<open>get(k)\<close> of a sequence return, in order, and the state after
  the sequence.\<close>

fun gets_of ::
    "string \<Rightarrow> (int \<times> call) list \<Rightarrow> TimeSeriesCache \<Rightarrow> jsval list \<times> TimeSeriesCache" where
  "gets_of k [] s = ([], s)"
| "gets_of k ((t, c) # rest) s =
     (case apply_call c (at_time t s) of
        (r, s') \<Rightarrow>
          (case gets_of k rest s' of
             (rs, s'') \<Rightarrow>
               ((if c = Get k then (case r of Some v \<Rightarrow> [v] | None \<Rightarrow> []) else []) @ rs,
                s'')))"

subsection \<open>Sample payloads\<close>

text \<open>Two results of the fetch function of lines 65 to 92: arrays of points.\<close>

definition D1 :: jsval where
  "D1 = JArr [JObj [(''time'', JStr ''2024-01-02 09:30:00''), (''open'', JNum 185),
                   (''high'', JNum 186), (''low'', JNum 184), (''close'', JNum 185)]]"

definition D2 :: jsval where
  "D2 = JArr [JObj [(''time'', JStr ''2024-01-02 09:31:00''), (''open'', JNum 185),
                   (''high'', JNum 187), (''low'', JNum 185), (''close'', JNum 186)]]"

subsection \<open>Fixtures\<close>

text \<open>The cache of line 96 after \<^verbatim>\<open>set("AAPL-1min-t0-t1", D1)\<close> at time 0.\<close>

definition cache_AAPL :: TimeSeriesCache where
  "cache_AAPL = set_cache ''AAPL-1min-t0-t1'' D1 (default_TimeSeriesCache 0)"

text \<open>Two fetch functions that \<^verbatim>\<open>this.fetchFunction\<close> could be assigned: one fails for
  the key \<^verbatim>\<open>"Y"\<close> with the error of line 91, one always succeeds.\<close>

definition fails_for_Y :: "string \<Rightarrow> loader" where
  "fails_for_Y key t =
     (if key = ''Y'' then (Inl (Error ''Unexpected API response''), 250) else (Inr D2, 250))"

definition returns_D2 :: "string \<Rightarrow> loader" where
  "returns_D2 key t = (Inr D2, 250)"

text \<open>A cache with that first fetch function and two entries stored at time 0, at the
  time of the first refresh pass.\<close>

definition cache_Y_Z :: TimeSeriesCache where
  "cache_Y_Z =
     at_time 60000
       ((set_cache ''Z'' D1 (set_cache ''Y'' D1 (default_TimeSeriesCache 0)))
          \<lparr>fetchFunction := Some fails_for_Y\<rparr>)"

text \<open>The cache of line 96 after a call of \<^verbatim>\<open>fetchData\<close> at time 0 whose loader returned
  the number 0 after 250 milliseconds, at time 1000.\<close>

definition cache_zero :: TimeSeriesCache where
  "cache_zero =
     at_time 1000 (snd (fetchData ''AAPL'' (\<lambda>t. (Inr (JNum 0), 250)) (default_TimeSeriesCache 0)))"

subsection \<open>Notions the statements use\<close>

text \<open>The times of the calls \<^verbatim>\<open>get(k)\<close> in a sequence, and the sequences without a
  call \<^verbatim>\<open>set(k, ...)\<close>.\<close>

definition get_times :: "string \<Rightarrow> (int \<times> call) list \<Rightarrow> int list" where
  "get_times k calls = map fst (filter (\<lambda>(t, c). c = Get k) calls)"

definition no_set_of :: "string \<Rightarrow> (int \<times> call) list \<Rightarrow> bool" where
  "no_set_of k calls = list_all (\<lambda>(t, c). case c of Set k' d \<Rightarrow> k' \<noteq> k | Get k' \<Rightarrow> True) calls"

text \<open>The events a refresh pass can leave in the trace when it visits a key.\<close>

definition visit :: "string \<Rightarrow> event set" where
  "visit k = {ConsoleLog [''Refreshing cache for'', k], CallFetchFunction k}"

section \<open>Auxiliary facts\<close>

subsection \<open>get and set\<close>

lemma get_valid:
  "map_of (cache s) k = Some e \<Longrightarrow> \<not> isExpired s e \<Longrightarrow> get k s = (data e, s)"
  by (simp add: get_def)

lemma get_expired:
  "map_of (cache s) k = Some e \<Longrightarrow> isExpired s e \<Longrightarrow>
   get k s = (JNull, s\<lparr>cache := AList.delete k (cache s)\<rparr>)"
  by (simp add: get_def)

lemma get_absent:
  "map_of (cache s) k = None \<Longrightarrow> get k s = (JNull, s\<lparr>cache := AList.delete k (cache s)\<rparr>)"
  by (simp add: get_def)

lemma map_of_delete_same: "map_of (AList.delete k al) k = None"
  by (simp add: delete_conv')

lemma map_of_set_cache:
  "map_of (cache (set_cache k d s)) k' =
     (if k' = k then Some \<lparr>data = d, timestamp = clock s\<rparr> else map_of (cache s) k')"
  by (simp add: set_cache_def update_conv')

lemma set_cache_fields:
  "expirationDuration (set_cache k d s) = expirationDuration s"
  "refreshInterval (set_cache k d s) = refreshInterval s"
  "fetchFunction (set_cache k d s) = fetchFunction s"
  "clock (set_cache k d s) = clock s"
  "trace (set_cache k d s) = trace s"
  by (simp_all add: set_cache_def)

lemma get_fields:
  "expirationDuration (snd (get k s)) = expirationDuration s"
  "refreshInterval (snd (get k s)) = refreshInterval s"
  "fetchFunction (snd (get k s)) = fetchFunction s"
  "clock (snd (get k s)) = clock s"
  "trace (snd (get k s)) = trace s"
  by (simp_all add: get_def split: option.splits)

lemma get_other_key:
  "k' \<noteq> k \<Longrightarrow> map_of (cache (snd (get k s))) k' = map_of (cache s) k'"
  by (simp add: get_def split: option.splits)

lemma log_fields:
  "cache (log a s) = cache s" "clock (log a s) = clock s"
  "trace (log a s) = trace s @ [ConsoleLog a]"
  "expirationDuration (log a s) = expirationDuration s"
  "fetchFunction (log a s) = fetchFunction s"
  by (simp_all add: log_def)

lemma record_call_fields:
  "cache (record_call ev s) = cache s" "clock (record_call ev s) = clock s"
  "trace (record_call ev s) = trace s @ [ev]"
  "expirationDuration (record_call ev s) = expirationDuration s"
  "fetchFunction (record_call ev s) = fetchFunction s"
  by (simp_all add: record_call_def)

lemma elapse_fields:
  "cache (elapse d s) = cache s" "clock (elapse d s) = clock s + int d"
  "trace (elapse d s) = trace s"
  "expirationDuration (elapse d s) = expirationDuration s"
  "fetchFunction (elapse d s) = fetchFunction s"
  by (simp_all add: elapse_def)

lemma at_time_fields:
  "cache (at_time t s) = cache s" "clock (at_time t s) = t"
  "trace (at_time t s) = trace s"
  "expirationDuration (at_time t s) = expirationDuration s"
  "fetchFunction (at_time t s) = fetchFunction s"
  by (simp_all add: at_time_def)

lemma get_payload_or_null:
  "fst (get k s) = JNull \<or> (\<exists>e. map_of (cache s) k = Some e \<and> fst (get k s) = data e)"
  by (simp add: get_def split: option.splits)

lemma get_falsy_iff:
  "\<not> truthy (fst (get k s)) \<longleftrightarrow>
   \<not> (\<exists>e. map_of (cache s) k = Some e \<and> \<not> isExpired s e \<and> truthy (data e))"
  by (auto simp: get_def split: option.splits)

text \<open>The keys of the \<^verbatim>\<open>Map\<close> stay distinct.\<close>

lemma distinct_keys_new: "distinct (map fst (cache (new_TimeSeriesCache expiration interval t)))"
  by (simp add: new_TimeSeriesCache_def)

lemma distinct_keys_set_cache:
  "distinct (map fst (cache s)) \<Longrightarrow> distinct (map fst (cache (set_cache k d s)))"
  by (simp add: set_cache_def distinct_update)

lemma distinct_keys_get:
  "distinct (map fst (cache s)) \<Longrightarrow> distinct (map fst (cache (snd (get k s))))"
  by (simp add: get_def distinct_delete split: option.splits)

subsection \<open>fetchData\<close>

lemma fetchData_begin_hit:
  "map_of (cache s) k = Some e \<Longrightarrow> \<not> isExpired s e \<Longrightarrow> truthy (data e) \<Longrightarrow>
   fetchData_begin k s = (Some (data e), log [''Cache hit for'', k] s)"
  by (simp add: fetchData_begin_def get_valid)

lemma fetchData_begin_miss:
  "\<not> truthy (fst (get k s)) \<Longrightarrow>
   fetchData_begin k s =
     (None, record_call (CallLoader k) (log [''Cache miss for'', k] (snd (get k s))))"
  by (cases "get k s") (simp add: fetchData_begin_def)

lemma fetchData_begin_None_iff:
  "fst (fetchData_begin k s) = None \<longleftrightarrow> \<not> truthy (fst (get k s))"
  by (cases "get k s") (simp add: fetchData_begin_def)

lemma fetchData_begin_miss_trace:
  "\<not> truthy (fst (get k s)) \<Longrightarrow>
   trace (snd (fetchData_begin k s)) = trace s @ [ConsoleLog [''Cache miss for'', k], CallLoader k]"
  by (simp add: fetchData_begin_miss record_call_fields log_fields get_fields)

lemma fetchData_begin_miss_cache:
  "\<not> truthy (fst (get k s)) \<Longrightarrow> cache (snd (fetchData_begin k s)) = cache (snd (get k s))"
  by (simp add: fetchData_begin_miss record_call_fields log_fields)

lemma fetchData_miss:
  assumes "\<not> truthy (fst (get k s))"
  shows "fetchData k loader s =
     fetchData_resume k (fst (loader (clock s)))
       (elapse (snd (loader (clock s)))
          (record_call (CallLoader k) (log [''Cache miss for'', k] (snd (get k s)))))"
  using assms
  by (simp add: fetchData_def fetchData_begin_miss record_call_fields log_fields get_fields
      split: prod.splits)

lemma fetchData_resume_trace: "trace (snd (fetchData_resume k out s)) = trace s"
  by (simp add: fetchData_resume_def set_cache_fields split: sum.splits)

lemma fetchData_miss_trace:
  assumes "\<not> truthy (fst (get k s))"
  shows "trace (snd (fetchData k loader s)) =
     trace s @ [ConsoleLog [''Cache miss for'', k], CallLoader k]"
  by (simp add: fetchData_miss [OF assms] fetchData_resume_trace elapse_fields
      record_call_fields log_fields get_fields)

lemma fetchData_miss_success:
  assumes "\<not> truthy (fst (get k s))" and "loader (clock s) = (Inr v, d)"
  shows "fst (fetchData k loader s) = Inr v"
    and "map_of (cache (snd (fetchData k loader s))) k
         = Some \<lparr>data = v, timestamp = clock s + int d\<rparr>"
  using assms(2)
  by (simp_all add: fetchData_miss [OF assms(1)] fetchData_resume_def map_of_set_cache
      elapse_fields record_call_fields log_fields get_fields)

text \<open>What \<open>fetchData\<close> does in every state: the test of line 33 is on the value
  \<open>get\<close> returned.\<close>

lemma fetchData_hit_or_load:
  "(\<forall>e. map_of (cache s) k = Some e \<and> \<not> isExpired s e \<and> truthy (data e) \<longrightarrow>
       fetchData k loader s = (Inr (data e), log [''Cache hit for'', k] s))
   \<and> (\<not> (\<exists>e. map_of (cache s) k = Some e \<and> \<not> isExpired s e \<and> truthy (data e)) \<longrightarrow>
       trace (snd (fetchData k loader s))
         = trace s @ [ConsoleLog [''Cache miss for'', k], CallLoader k]
       \<and> (\<forall>v d. loader (clock s) = (Inr v, d) \<longrightarrow>
            fst (fetchData k loader s) = Inr v
            \<and> map_of (cache (snd (fetchData k loader s))) k
                = Some \<lparr>data = v, timestamp = clock s + int d\<rparr>))"
proof (intro conjI allI impI)
  fix e
  assume "map_of (cache s) k = Some e \<and> \<not> isExpired s e \<and> truthy (data e)"
  then show "fetchData k loader s = (Inr (data e), log [''Cache hit for'', k] s)"
    by (simp add: fetchData_def fetchData_begin_hit)
next
  assume "\<not> (\<exists>e. map_of (cache s) k = Some e \<and> \<not> isExpired s e \<and> truthy (data e))"
  then have m: "\<not> truthy (fst (get k s))"
    using get_falsy_iff [of k s] by blast
  show "trace (snd (fetchData k loader s))
      = trace s @ [ConsoleLog [''Cache miss for'', k], CallLoader k]"
    by (rule fetchData_miss_trace [OF m])
  fix v d
  assume l: "loader (clock s) = (Inr v, d)"
  show "fst (fetchData k loader s) = Inr v"
    by (rule fetchData_miss_success(1) [where loader = loader, OF m l])
  show "map_of (cache (snd (fetchData k loader s))) k
      = Some \<lparr>data = v, timestamp = clock s + int d\<rparr>"
    by (rule fetchData_miss_success(2) [where loader = loader, OF m l])
qed

text \<open>On payloads that are arrays or objects, as the fetch function of lines 65 to 92
  returns them, a valid entry is a hit and an absent or expired one a load.\<close>

lemma fetchData_array_or_object_payload:
  "(\<forall>e. map_of (cache s) k = Some e \<and> \<not> isExpired s e
        \<and> ((\<exists>xs. data e = JArr xs) \<or> (\<exists>fs. data e = JObj fs)) \<longrightarrow>
       fetchData k loader s = (Inr (data e), log [''Cache hit for'', k] s))
   \<and> (map_of (cache s) k = None \<or> (\<exists>e. map_of (cache s) k = Some e \<and> isExpired s e) \<longrightarrow>
       trace (snd (fetchData k loader s))
         = trace s @ [ConsoleLog [''Cache miss for'', k], CallLoader k]
       \<and> (\<forall>v d. loader (clock s) = (Inr v, d) \<longrightarrow>
            fst (fetchData k loader s) = Inr v
            \<and> map_of (cache (snd (fetchData k loader s))) k
                = Some \<lparr>data = v, timestamp = clock s + int d\<rparr>))"
proof (intro conjI allI impI)
  fix e
  assume a: "map_of (cache s) k = Some e \<and> \<not> isExpired s e
      \<and> ((\<exists>xs. data e = JArr xs) \<or> (\<exists>fs. data e = JObj fs))"
  then have "truthy (data e)" by auto
  with a show "fetchData k loader s = (Inr (data e), log [''Cache hit for'', k] s)"
    by (simp add: fetchData_def fetchData_begin_hit)
next
  assume "map_of (cache s) k = None \<or> (\<exists>e. map_of (cache s) k = Some e \<and> isExpired s e)"
  then have m: "\<not> truthy (fst (get k s))"
    by (auto simp: get_absent get_expired)
  show "trace (snd (fetchData k loader s))
      = trace s @ [ConsoleLog [''Cache miss for'', k], CallLoader k]"
    by (rule fetchData_miss_trace [OF m])
  fix v d
  assume l: "loader (clock s) = (Inr v, d)"
  show "fst (fetchData k loader s) = Inr v"
    by (rule fetchData_miss_success(1) [where loader = loader, OF m l])
  show "map_of (cache (snd (fetchData k loader s))) k
      = Some \<lparr>data = v, timestamp = clock s + int d\<rparr>"
    by (rule fetchData_miss_success(2) [where loader = loader, OF m l])
qed

lemma cache_zero_simps:
  "cache cache_zero = [(''AAPL'', \<lparr>data = JNum 0, timestamp = 250\<rparr>)]"
  "expirationDuration cache_zero = 600000"
  "clock cache_zero = 1000"
  "trace cache_zero = [ConsoleLog [''Cache miss for'', ''AAPL''], CallLoader ''AAPL'']"
  by (simp_all add: cache_zero_def fetchData_def fetchData_begin_def fetchData_resume_def
      get_def at_time_def set_cache_def default_TimeSeriesCache_def new_TimeSeriesCache_def
      log_def record_call_def elapse_def)

text \<open>\<open>fetchData\<close> fails only with the error of its loader.\<close>

lemma fetchData_failure_origin:
  assumes "fst (fetchData k loader s) = Inl err"
  shows "fst (loader (clock s)) = Inl err"
proof (cases "truthy (fst (get k s))")
  case True
  then have "fetchData_begin k s = (Some (fst (get k s)), log [''Cache hit for'', k] (snd (get k s)))"
    by (cases "get k s") (simp add: fetchData_begin_def)
  then have "fst (fetchData k loader s) = Inr (fst (get k s))"
    by (simp add: fetchData_def)
  with assms show ?thesis by simp
next
  case False
  from assms show ?thesis
    by (cases "fst (loader (clock s))")
      (simp_all add: fetchData_miss [OF False] fetchData_resume_def)
qed

lemma distinct_keys_fetchData:
  assumes "distinct (map fst (cache s))"
  shows "distinct (map fst (cache (snd (fetchData k loader s))))"
proof (cases "truthy (fst (get k s))")
  case True
  then have "fetchData_begin k s = (Some (fst (get k s)), log [''Cache hit for'', k] (snd (get k s)))"
    by (cases "get k s") (simp add: fetchData_begin_def)
  then show ?thesis
    using distinct_keys_get [OF assms, of k] by (simp add: fetchData_def log_fields)
next
  case False
  show ?thesis
    using distinct_keys_get [OF assms, of k]
    by (cases "fst (loader (clock s))")
      (simp_all add: fetchData_miss [OF False] fetchData_resume_def set_cache_def
        distinct_update elapse_fields record_call_fields log_fields)
qed

lemma get_falsy_again:
  assumes "\<not> truthy (fst (get k s))" and "cache s' = cache (snd (get k s))"
  shows "\<not> truthy (fst (get k s'))"
proof (cases "map_of (cache s) k")
  case None
  then have "map_of (cache s') k = None"
    by (simp add: assms(2) get_absent map_of_delete_same)
  then show ?thesis by (simp add: get_absent)
next
  case (Some e)
  show ?thesis
  proof (cases "isExpired s e")
    case True
    then have "map_of (cache s') k = None"
      by (simp add: assms(2) get_expired [OF Some] map_of_delete_same)
    then show ?thesis by (simp add: get_absent)
  next
    case False
    then have g: "get k s = (data e, s)"
      by (rule get_valid [OF Some])
    with assms(1) have f: "\<not> truthy (data e)" by simp
    from g assms(2) have "map_of (cache s') k = Some e"
      by (simp add: Some)
    with f show ?thesis
      by (cases "isExpired s' e") (simp_all add: get_valid get_expired)
  qed
qed

subsection \<open>Sequences of calls\<close>

lemma apply_call_Get: "apply_call (Get k) s = (Some (fst (get k s)), snd (get k s))"
  by (simp split: prod.splits)

lemma gets_of_Cons:
  "gets_of k ((t, c) # rest) s =
     ((if c = Get k then [fst (get k (at_time t s))] else [])
        @ fst (gets_of k rest (snd (apply_call c (at_time t s)))),
      snd (gets_of k rest (snd (apply_call c (at_time t s)))))"
  by (cases "c = Get k") (simp_all split: prod.splits)

lemma apply_call_expirationDuration:
  "expirationDuration (snd (apply_call c s)) = expirationDuration s"
  by (cases c) (simp_all add: apply_call_Get get_fields set_cache_fields del: apply_call.simps(1))

lemma apply_call_other:
  assumes "c \<noteq> Get k" and "\<forall>d. c \<noteq> Set k d"
  shows "map_of (cache (snd (apply_call c s))) k = map_of (cache s) k"
proof (cases c)
  case (Get k')
  with assms(1) have "k \<noteq> k'" by auto
  then have "map_of (cache (snd (get k' s))) k = map_of (cache s) k"
    by (rule get_other_key)
  with Get show ?thesis by (simp add: apply_call_Get del: apply_call.simps(1))
next
  case (Set k' d)
  with assms(2) have "k \<noteq> k'" by auto
  with Set show ?thesis by (simp add: map_of_set_cache)
qed

lemma gets_of_absent:
  "no_set_of k calls \<Longrightarrow> map_of (cache s) k = None \<Longrightarrow>
   fst (gets_of k calls s) = replicate (length (get_times k calls)) JNull
   \<and> map_of (cache (snd (gets_of k calls s))) k = None"
proof (induction calls arbitrary: s)
  case Nil
  then show ?case by (simp add: get_times_def)
next
  case (Cons tc calls)
  obtain t c where tc: "tc = (t, c)" by (cases tc)
  from Cons.prems(1) have ns: "no_set_of k calls" and c_ok: "\<forall>d. c \<noteq> Set k d"
    by (auto simp: no_set_of_def tc)
  let ?s' = "snd (apply_call c (at_time t s))"
  have abs': "map_of (cache ?s') k = None"
  proof (cases "c = Get k")
    case True
    have "map_of (cache (at_time t s)) k = None"
      using Cons.prems(2) by (simp add: at_time_fields)
    then show ?thesis
      by (simp add: True apply_call_Get get_absent map_of_delete_same del: apply_call.simps(1))
  next
    case False
    then show ?thesis
      using apply_call_other [OF False c_ok, of "at_time t s"] Cons.prems(2)
      by (simp add: at_time_fields)
  qed
  have r: "fst (get k (at_time t s)) = JNull"
    using Cons.prems(2) by (simp add: get_absent at_time_fields)
  from Cons.IH [OF ns abs'] r show ?case
    by (cases "c = Get k") (simp_all add: tc gets_of_Cons get_times_def del: gets_of.simps)
qed

lemma gets_of_present:
  "no_set_of k calls \<Longrightarrow> map_of (cache s) k = Some e \<Longrightarrow>
   fst (gets_of k calls s) =
     replicate (length (takeWhile (\<lambda>t. t - timestamp e \<le> expirationDuration s) (get_times k calls)))
       (data e)
     @ replicate (length (dropWhile (\<lambda>t. t - timestamp e \<le> expirationDuration s) (get_times k calls)))
       JNull
   \<and> map_of (cache (snd (gets_of k calls s))) k =
       (if \<forall>t \<in> set (get_times k calls). t - timestamp e \<le> expirationDuration s
        then Some e else None)"
proof (induction calls arbitrary: s)
  case Nil
  then show ?case by (simp add: get_times_def)
next
  case (Cons tc calls)
  obtain t c where tc: "tc = (t, c)" by (cases tc)
  from Cons.prems(1) have ns: "no_set_of k calls" and c_ok: "\<forall>d. c \<noteq> Set k d"
    by (auto simp: no_set_of_def tc)
  let ?s' = "snd (apply_call c (at_time t s))"
  have ttl: "expirationDuration ?s' = expirationDuration s"
    by (simp add: apply_call_expirationDuration at_time_fields)
  have pres: "map_of (cache (at_time t s)) k = Some e"
    using Cons.prems(2) by (simp add: at_time_fields)
  show ?case
  proof (cases "c = Get k")
    case False
    have keep: "map_of (cache ?s') k = Some e"
      using apply_call_other [OF False c_ok, of "at_time t s"] pres by simp
    from Cons.IH [OF ns keep] False show ?thesis
      by (simp add: tc gets_of_Cons get_times_def ttl del: gets_of.simps)
  next
    case True
    show ?thesis
    proof (cases "t - timestamp e \<le> expirationDuration s")
      case valid: True
      then have "\<not> isExpired (at_time t s) e"
        by (simp add: isExpired_def at_time_fields)
      then have g: "get k (at_time t s) = (data e, at_time t s)"
        by (rule get_valid [OF pres])
      have keep: "map_of (cache (at_time t s)) k = Some e"
        by (rule pres)
      have ac: "apply_call (Get k) (at_time t s) = (Some (data e), at_time t s)"
        by (simp add: apply_call_Get g del: apply_call.simps(1))
      from Cons.IH [OF ns keep] show ?thesis
        by (simp add: tc True gets_of_Cons ac g get_times_def valid at_time_fields
            del: gets_of.simps apply_call.simps)
    next
      case expired: False
      then have "isExpired (at_time t s) e"
        by (simp add: isExpired_def at_time_fields)
      then have g: "get k (at_time t s)
          = (JNull, (at_time t s)\<lparr>cache := AList.delete k (cache (at_time t s))\<rparr>)"
        by (rule get_expired [OF pres])
      let ?s2 = "(at_time t s)\<lparr>cache := AList.delete k (cache (at_time t s))\<rparr>"
      have gone: "map_of (cache ?s2) k = None"
        by (simp add: map_of_delete_same)
      have ac: "apply_call (Get k) (at_time t s) = (Some JNull, ?s2)"
        by (simp add: apply_call_Get g del: apply_call.simps(1))
      from gets_of_absent [OF ns gone] show ?thesis
        using expired
        by (simp add: tc True gets_of_Cons ac g get_times_def
            del: gets_of.simps apply_call.simps)
    qed
  qed
qed

subsection \<open>The refresh loop\<close>

text \<open>The four ways one step of the loop can go.\<close>

lemma refreshLoop_expired:
  "isExpired s e \<Longrightarrow> refreshLoop ((k, e) # rest) s = refreshLoop rest s"
  by simp

lemma refreshLoop_undefined:
  "\<not> isExpired s e \<Longrightarrow> fetchFunction s = None \<Longrightarrow>
   refreshLoop ((k, e) # rest) s =
     (Some (TypeError ''this.fetchFunction is not a function''),
      log [''Refreshing cache for'', k] s)"
  by (simp add: log_fields)

lemma refreshLoop_failed:
  "\<not> isExpired s e \<Longrightarrow> fetchFunction s = Some f \<Longrightarrow> f k (clock s) = (Inl err, d) \<Longrightarrow>
   refreshLoop ((k, e) # rest) s =
     (Some err, elapse d (record_call (CallFetchFunction k) (log [''Refreshing cache for'', k] s)))"
  by (simp add: log_fields)

lemma refreshLoop_refreshed:
  "\<not> isExpired s e \<Longrightarrow> fetchFunction s = Some f \<Longrightarrow> f k (clock s) = (Inr v, d) \<Longrightarrow>
   refreshLoop ((k, e) # rest) s =
     refreshLoop rest
       (set_cache k v
          (elapse d (record_call (CallFetchFunction k) (log [''Refreshing cache for'', k] s))))"
  by (simp add: log_fields)

lemma refreshLoop_cases:
  obtains (expired) "isExpired s e"
  | (undefined') "\<not> isExpired s e" "fetchFunction s = None"
  | (failed) f err d where "\<not> isExpired s e" "fetchFunction s = Some f"
      "f k (clock s) = (Inl err, d)"
  | (refreshed) f v d where "\<not> isExpired s e" "fetchFunction s = Some f"
      "f k (clock s) = (Inr v, d)"
proof (cases "isExpired s e")
  case True
  then show ?thesis by (rule expired)
next
  case valid: False
  show ?thesis
  proof (cases "fetchFunction s")
    case None
    with valid show ?thesis by (rule undefined')
  next
    case (Some f)
    obtain out d where o: "f k (clock s) = (out, d)" by (cases "f k (clock s)")
    show ?thesis
    proof (cases out)
      case (Inl err)
      with valid Some o show ?thesis by (auto intro: failed)
    next
      case (Inr v)
      with valid Some o show ?thesis by (auto intro: refreshed)
    qed
  qed
qed

lemma update_at_key:
  "k \<notin> fst ` set dn \<Longrightarrow> AList.update k v (dn @ (k, e) # rest) = dn @ (k, v) # rest"
  by (induction dn) auto

text \<open>A pass changes an entry only by storing what the fetch function returned for
  its key.\<close>

lemma refreshLoop_entry:
  "refreshLoop todo s = (r, s') \<Longrightarrow>
   map_of (cache s') k = map_of (cache s) k
   \<or> (\<exists>f t d v. fetchFunction s = Some f \<and> f k t = (Inr v, d)
         \<and> map_of (cache s') k = Some \<lparr>data = v, timestamp = t + int d\<rparr>)"
proof (induction todo arbitrary: s)
  case Nil
  then show ?case by simp
next
  case (Cons ke rest)
  obtain key e where ke: "ke = (key, e)" by (cases ke)
  show ?case
  proof (cases rule: refreshLoop_cases [where s = s and e = e and k = key])
    case expired
    with Cons.prems have "refreshLoop rest s = (r, s')"
      by (simp add: ke)
    then show ?thesis by (rule Cons.IH)
  next
    case undefined'
    with Cons.prems show ?thesis
      by (auto simp add: ke refreshLoop_undefined log_fields simp del: refreshLoop.simps)
  next
    case (failed f err d)
    with Cons.prems show ?thesis
      by (auto simp add: ke refreshLoop_failed [OF failed] log_fields record_call_fields
          elapse_fields simp del: refreshLoop.simps)
  next
    case (refreshed f v d)
    let ?s2 = "set_cache key v
      (elapse d (record_call (CallFetchFunction key) (log [''Refreshing cache for'', key] s)))"
    from Cons.prems have "refreshLoop rest ?s2 = (r, s')"
      by (simp add: ke refreshLoop_refreshed [OF refreshed] del: refreshLoop.simps)
    from Cons.IH [OF this]
    have "map_of (cache s') k = map_of (cache ?s2) k
      \<or> (\<exists>f t d v. fetchFunction s = Some f \<and> f k t = (Inr v, d)
            \<and> map_of (cache s') k = Some \<lparr>data = v, timestamp = t + int d\<rparr>)"
      by (simp add: set_cache_fields elapse_fields record_call_fields log_fields)
    moreover have "map_of (cache ?s2) k =
        (if k = key then Some \<lparr>data = v, timestamp = clock s + int d\<rparr> else map_of (cache s) k)"
      by (simp add: map_of_set_cache elapse_fields record_call_fields log_fields)
    ultimately show ?thesis
      using refreshed(2,3) by (cases "k = key") auto
  qed
qed

lemma visit_disjoint: "k \<noteq> k' \<Longrightarrow> visit k \<inter> visit k' = {}"
  by (auto simp: visit_def)

text \<open>A pass that ends with an error stopped at one key: the entries before it may
  have been refreshed, the entry of that key and those after it are as they were.\<close>

lemma refreshLoop_stops:
  "refreshLoop todo s = (Some err, s') \<Longrightarrow> cache s = dn @ todo \<Longrightarrow>
   distinct (map fst (dn @ todo)) \<Longrightarrow>
   \<exists>pre k e post pre' tr.
      todo = pre @ (k, e) # post
      \<and> cache s' = dn @ pre' @ (k, e) # post \<and> map fst pre' = map fst pre
      \<and> trace s' = trace s @ tr \<and> set tr \<subseteq> (\<Union>k' \<in> insert k (fst ` set pre). visit k')
      \<and> expirationDuration s' = expirationDuration s
      \<and> (fetchFunction s = None \<and> err = TypeError ''this.fetchFunction is not a function''
          \<or> (\<exists>f t d. fetchFunction s = Some f \<and> f k t = (Inl err, d)))"
proof (induction todo arbitrary: s dn)
  case Nil
  then show ?case by simp
next
  case (Cons ke rest)
  obtain key e where ke: "ke = (key, e)" by (cases ke)
  show ?case
  proof (cases rule: refreshLoop_cases [where s = s and e = e and k = key])
    case expired
    from Cons.prems(1) expired have run: "refreshLoop rest s = (Some err, s')"
      by (simp add: ke)
    have c: "cache s = (dn @ [(key, e)]) @ rest"
      using Cons.prems(2) by (simp add: ke)
    have d: "distinct (map fst ((dn @ [(key, e)]) @ rest))"
      using Cons.prems(3) by (simp add: ke)
    from Cons.IH [OF run c d] obtain pre k e' post pre' tr where
      h: "rest = pre @ (k, e') # post"
        "cache s' = (dn @ [(key, e)]) @ pre' @ (k, e') # post" "map fst pre' = map fst pre"
        "trace s' = trace s @ tr" "set tr \<subseteq> (\<Union>k' \<in> insert k (fst ` set pre). visit k')"
        "expirationDuration s' = expirationDuration s"
        "fetchFunction s = None \<and> err = TypeError ''this.fetchFunction is not a function''
          \<or> (\<exists>f t d. fetchFunction s = Some f \<and> f k t = (Inl err, d))"
      by blast
    have "ke # rest = ((key, e) # pre) @ (k, e') # post"
      by (simp add: ke h(1))
    moreover have "cache s' = dn @ ((key, e) # pre') @ (k, e') # post"
      by (simp add: h(2))
    moreover have "map fst ((key, e) # pre') = map fst ((key, e) # pre)"
      by (simp add: h(3))
    moreover have "set tr \<subseteq> (\<Union>k' \<in> insert k (fst ` set ((key, e) # pre)). visit k')"
      using h(5) by auto
    ultimately show ?thesis
      using h(4,6,7) by blast
  next
    case undefined'
    from Cons.prems(1) have s': "s' = log [''Refreshing cache for'', key] s"
      and err: "err = TypeError ''this.fetchFunction is not a function''"
      by (simp_all add: ke refreshLoop_undefined [OF undefined'] del: refreshLoop.simps)
    have "ke # rest = [] @ (key, e) # rest"
      by (simp add: ke)
    moreover have "cache s' = dn @ [] @ (key, e) # rest"
      using Cons.prems(2) by (simp add: s' log_fields ke)
    moreover have "trace s' = trace s @ [ConsoleLog [''Refreshing cache for'', key]]"
      by (simp add: s' log_fields)
    moreover have "set [ConsoleLog [''Refreshing cache for'', key]]
        \<subseteq> (\<Union>k' \<in> insert key (fst ` set []). visit k')"
      by (simp add: visit_def)
    moreover have "expirationDuration s' = expirationDuration s"
      by (simp add: s' log_fields)
    ultimately show ?thesis
      using undefined'(2) err by blast
  next
    case (failed f err' d)
    from Cons.prems(1) have s': "s' = elapse d (record_call (CallFetchFunction key)
          (log [''Refreshing cache for'', key] s))"
      and err: "err = err'"
      by (simp_all add: ke refreshLoop_failed [OF failed] del: refreshLoop.simps)
    have "ke # rest = [] @ (key, e) # rest"
      by (simp add: ke)
    moreover have "cache s' = dn @ [] @ (key, e) # rest"
      using Cons.prems(2) by (simp add: s' elapse_fields record_call_fields log_fields ke)
    moreover have "trace s' = trace s
        @ [ConsoleLog [''Refreshing cache for'', key], CallFetchFunction key]"
      by (simp add: s' elapse_fields record_call_fields log_fields)
    moreover have "set [ConsoleLog [''Refreshing cache for'', key], CallFetchFunction key]
        \<subseteq> (\<Union>k' \<in> insert key (fst ` set []). visit k')"
      by (simp add: visit_def)
    moreover have "expirationDuration s' = expirationDuration s"
      by (simp add: s' elapse_fields record_call_fields log_fields)
    moreover have "\<exists>f t d. fetchFunction s = Some f \<and> f key t = (Inl err, d)"
      using failed(2,3) err by blast
    ultimately show ?thesis
      by blast
  next
    case (refreshed f v d)
    let ?s1 = "elapse d (record_call (CallFetchFunction key)
        (log [''Refreshing cache for'', key] s))"
    let ?s2 = "set_cache key v ?s1"
    let ?new = "\<lparr>data = v, timestamp = clock s + int d\<rparr>"
    from Cons.prems(1) have run: "refreshLoop rest ?s2 = (Some err, s')"
      by (simp add: ke refreshLoop_refreshed [OF refreshed] del: refreshLoop.simps)
    have notin: "key \<notin> fst ` set dn"
      using Cons.prems(3) by (auto simp: ke)
    have "cache ?s2 = AList.update key ?new (dn @ (key, e) # rest)"
      using Cons.prems(2)
      by (simp add: set_cache_def elapse_fields record_call_fields log_fields ke)
    then have c: "cache ?s2 = (dn @ [(key, ?new)]) @ rest"
      by (simp add: update_at_key [OF notin])
    have d: "distinct (map fst ((dn @ [(key, ?new)]) @ rest))"
      using Cons.prems(3) by (simp add: ke)
    from Cons.IH [OF run c d] obtain pre k e' post pre' tr where
      h: "rest = pre @ (k, e') # post"
        "cache s' = (dn @ [(key, ?new)]) @ pre' @ (k, e') # post" "map fst pre' = map fst pre"
        "trace s' = trace ?s2 @ tr" "set tr \<subseteq> (\<Union>k' \<in> insert k (fst ` set pre). visit k')"
        "expirationDuration s' = expirationDuration ?s2"
        "fetchFunction ?s2 = None \<and> err = TypeError ''this.fetchFunction is not a function''
          \<or> (\<exists>f t d. fetchFunction ?s2 = Some f \<and> f k t = (Inl err, d))"
      by blast
    let ?tr = "[ConsoleLog [''Refreshing cache for'', key], CallFetchFunction key] @ tr"
    have "ke # rest = ((key, e) # pre) @ (k, e') # post"
      by (simp add: ke h(1))
    moreover have "cache s' = dn @ ((key, ?new) # pre') @ (k, e') # post"
      by (simp add: h(2))
    moreover have "map fst ((key, ?new) # pre') = map fst ((key, e) # pre)"
      by (simp add: h(3))
    moreover have "trace s' = trace s @ ?tr"
      by (simp add: h(4) set_cache_fields elapse_fields record_call_fields log_fields)
    moreover have "set ?tr \<subseteq> (\<Union>k' \<in> insert k (fst ` set ((key, e) # pre)). visit k')"
      using h(5) by (auto simp: visit_def)
    moreover have "expirationDuration s' = expirationDuration s"
      by (simp add: h(6) set_cache_fields elapse_fields record_call_fields log_fields)
    moreover have "fetchFunction s = None \<and> err = TypeError ''this.fetchFunction is not a function''
          \<or> (\<exists>f t d. fetchFunction s = Some f \<and> f k t = (Inl err, d))"
      using h(7) by (simp add: set_cache_fields elapse_fields record_call_fields log_fields)
    ultimately show ?thesis
      by blast
  qed
qed

lemma refreshLoop_undefined_fetchFunction:
  "fetchFunction s = None \<Longrightarrow> \<exists>ke \<in> set todo. \<not> isExpired s (snd ke) \<Longrightarrow>
   fst (refreshLoop todo s) = Some (TypeError ''this.fetchFunction is not a function'')
   \<and> (\<exists>k. snd (refreshLoop todo s) = log [''Refreshing cache for'', k] s)"
proof (induction todo)
  case Nil
  then show ?case by simp
next
  case (Cons ke todo)
  obtain k e where ke: "ke = (k, e)" by (cases ke)
  show ?case
  proof (cases "isExpired s e")
    case True
    with Cons.prems(2) have "\<exists>ke \<in> set todo. \<not> isExpired s (snd ke)"
      by (auto simp: ke)
    from Cons.IH [OF Cons.prems(1) this] True show ?thesis
      by (simp add: ke)
  next
    case False
    show ?thesis
      by (simp add: ke refreshLoop_undefined [OF False Cons.prems(1)] del: refreshLoop.simps)
        blast
  qed
qed

lemma cache_Y_Z_simps:
  "cache cache_Y_Z = [(''Y'', \<lparr>data = D1, timestamp = 0\<rparr>), (''Z'', \<lparr>data = D1, timestamp = 0\<rparr>)]"
  "expirationDuration cache_Y_Z = 600000"
  "fetchFunction cache_Y_Z = Some fails_for_Y"
  "clock cache_Y_Z = 60000"
  "trace cache_Y_Z = []"
  by (simp_all add: cache_Y_Z_def at_time_def set_cache_def default_TimeSeriesCache_def
      new_TimeSeriesCache_def)

lemma startAutoRefresh_cache_Y_Z:
  "startAutoRefresh cache_Y_Z =
     (Some (Error ''Unexpected API response''),
      elapse 250 (record_call (CallFetchFunction ''Y'')
        (log [''Refreshing cache for'', ''Y''] cache_Y_Z)))"
  by (simp add: startAutoRefresh_def cache_Y_Z_simps isExpired_def log_fields fails_for_Y_def)

lemma cache_AAPL_simps:
  "cache cache_AAPL = [(''AAPL-1min-t0-t1'', \<lparr>data = D1, timestamp = 0\<rparr>)]"
  "expirationDuration cache_AAPL = 600000"
  "fetchFunction cache_AAPL = None"
  "clock cache_AAPL = 0"
  "trace cache_AAPL = []"
  by (simp_all add: cache_AAPL_def set_cache_def default_TimeSeriesCache_def
      new_TimeSeriesCache_def)

text \<open>With a fetch function assigned to \<^verbatim>\<open>this.fetchFunction\<close>, the pass at 60000
  replaces the entry and \<^verbatim>\<open>get\<close> at 120000 returns the new data.\<close>

lemma scenario_B_with_fetchFunction_defined:
  "fst (startAutoRefresh (at_time 60000 (cache_AAPL\<lparr>fetchFunction := Some returns_D2\<rparr>))) = None
   \<and> cache (snd (startAutoRefresh (at_time 60000 (cache_AAPL\<lparr>fetchFunction := Some returns_D2\<rparr>))))
       = [(''AAPL-1min-t0-t1'', \<lparr>data = D2, timestamp = 60250\<rparr>)]
   \<and> fst (get ''AAPL-1min-t0-t1''
        (at_time 120000
          (snd (startAutoRefresh (at_time 60000 (cache_AAPL\<lparr>fetchFunction := Some returns_D2\<rparr>))))))
       = D2"
proof -
  let ?s = "at_time 60000 (cache_AAPL\<lparr>fetchFunction := Some returns_D2\<rparr>)"
  have r: "startAutoRefresh ?s =
      (None, set_cache ''AAPL-1min-t0-t1'' D2
         (elapse 250 (record_call (CallFetchFunction ''AAPL-1min-t0-t1'')
            (log [''Refreshing cache for'', ''AAPL-1min-t0-t1''] ?s))))"
    by (simp add: startAutoRefresh_def at_time_fields cache_AAPL_simps isExpired_def log_fields
        returns_D2_def)
  have c: "cache (snd (startAutoRefresh ?s))
      = [(''AAPL-1min-t0-t1'', \<lparr>data = D2, timestamp = 60250\<rparr>)]"
    unfolding r
    by (simp add: set_cache_def elapse_fields record_call_fields log_fields at_time_fields
        cache_AAPL_simps)
  have e: "expirationDuration (snd (startAutoRefresh ?s)) = 600000"
    unfolding r
    by (simp add: set_cache_def elapse_fields record_call_fields log_fields at_time_fields
        cache_AAPL_simps)
  have "fst (get ''AAPL-1min-t0-t1'' (at_time 120000 (snd (startAutoRefresh ?s)))) = D2"
    by (simp add: get_def at_time_fields c e isExpired_def)
  with r c show ?thesis by simp
qed

subsection \<open>The cache key\<close>

text \<open>The key determines the parameters when the first three contain no dash.\<close>

lemma split_at_first:
  assumes "x \<notin> set u" and "x \<notin> set v" and "u @ x # r = v @ x # r'"
  shows "u = v \<and> r = r'"
  using assms
proof (induction u arbitrary: v)
  case Nil
  then show ?case by (cases v) auto
next
  case (Cons a u)
  then show ?case by (cases v) auto
qed

lemma cacheKey_injective_without_dash:
  assumes "CHR ''-'' \<notin> set symbol \<union> set period \<union> set start"
    and "CHR ''-'' \<notin> set symbol' \<union> set period' \<union> set start'"
    and "cacheKey symbol period start end' = cacheKey symbol' period' start' end''"
  shows "symbol = symbol' \<and> period = period' \<and> start = start' \<and> end' = end''"
proof -
  from assms(3) have e1: "symbol @ CHR ''-'' # (period @ CHR ''-'' # (start @ CHR ''-'' # end'))
      = symbol' @ CHR ''-'' # (period' @ CHR ''-'' # (start' @ CHR ''-'' # end''))"
    by (simp add: cacheKey_def)
  from assms(1,2) have d: "CHR ''-'' \<notin> set symbol" "CHR ''-'' \<notin> set symbol'"
    "CHR ''-'' \<notin> set period" "CHR ''-'' \<notin> set period'"
    "CHR ''-'' \<notin> set start" "CHR ''-'' \<notin> set start'"
    by simp_all
  from split_at_first [OF d(1,2) e1]
  have s: "symbol = symbol'"
    and e2: "period @ CHR ''-'' # (start @ CHR ''-'' # end')
      = period' @ CHR ''-'' # (start' @ CHR ''-'' # end'')"
    by simp_all
  from split_at_first [OF d(3,4) e2]
  have p: "period = period'" and e3: "start @ CHR ''-'' # end' = start' @ CHR ''-'' # end''"
    by simp_all
  from split_at_first [OF d(5,6) e3] s p show ?thesis
    by simp
qed

section \<open>The claims\<close>

subsection \<open>C1: the refresh pass of the cache as written\<close>

text \<open>
  Claim C1 says that a pass calls the fetch function again for every valid key and
  stores the result, so that an entry stored at 0 with \<open>D1\<close> and refreshed at 60000
  with \<open>D2\<close> makes \<^verbatim>\<open>get\<close> at 120000 return \<open>D2\<close>. On the cache as line 96
  constructs it this fails: at the first valid entry line 49 calls
  \<^verbatim>\<open>this.fetchFunction\<close>, which is \<^verbatim>\<open>undefined\<close>, and the pass ends with a
  \<^verbatim>\<open>TypeError\<close> after its log line. The entry keeps \<open>D1\<close> and its timestamp 0, and
  \<^verbatim>\<open>get\<close> at 120000 returns \<open>D1\<close>, which is not \<open>D2\<close>.
\<close>

theorem startAutoRefresh_scenario_B:
  "startAutoRefresh (at_time 60000 cache_AAPL)
     = (Some (TypeError ''this.fetchFunction is not a function''),
        log [''Refreshing cache for'', ''AAPL-1min-t0-t1''] (at_time 60000 cache_AAPL))
   \<and> cache (snd (startAutoRefresh (at_time 60000 cache_AAPL)))
       = [(''AAPL-1min-t0-t1'', \<lparr>data = D1, timestamp = 0\<rparr>)]
   \<and> fst (get ''AAPL-1min-t0-t1''
        (at_time 120000 (snd (startAutoRefresh (at_time 60000 cache_AAPL))))) = D1
   \<and> D1 \<noteq> D2"
proof -
  have r: "startAutoRefresh (at_time 60000 cache_AAPL)
     = (Some (TypeError ''this.fetchFunction is not a function''),
        log [''Refreshing cache for'', ''AAPL-1min-t0-t1''] (at_time 60000 cache_AAPL))"
    by (simp add: startAutoRefresh_def at_time_fields cache_AAPL_simps isExpired_def log_fields)
  have g: "fst (get ''AAPL-1min-t0-t1''
      (at_time 120000 (log [''Refreshing cache for'', ''AAPL-1min-t0-t1'']
         (at_time 60000 cache_AAPL)))) = D1"
    by (simp add: get_def at_time_fields log_fields cache_AAPL_simps isExpired_def)
  have d: "D1 \<noteq> D2"
    by (simp add: D1_def D2_def)
  show ?thesis
    by (simp add: r g d log_fields at_time_fields cache_AAPL_simps)
qed

subsection \<open>C2: get returns a valid entry's payload and evicts an expired one\<close>

text \<open>
  Claim C2. For every key and every state, \<open>get\<close> returns the stored payload when the
  key has an entry whose age (the clock minus its timestamp) is at most
  \<open>expirationDuration\<close>, and leaves the state as it is. In every other case (no entry,
  or an entry older than that) it returns \<^verbatim>\<open>null\<close> and the state differs only in that
  the key's entry is deleted: the other keys keep their entries. In both cases the
  trace is unchanged, so no fetch function was called. With a duration of 600000,
  after \<^verbatim>\<open>set(k, d1)\<close> at time 0, \<^verbatim>\<open>get(k)\<close> at 500000 returns \<open>d1\<close> and \<^verbatim>\<open>get(k)\<close>
  at 600001 returns \<^verbatim>\<open>null\<close> and the key has no entry afterwards.
\<close>

theorem get_returns_valid_or_evicts:
  "(\<forall>e. map_of (cache s) k = Some e \<and> clock s - timestamp e \<le> expirationDuration s
        \<longrightarrow> get k s = (data e, s))
   \<and> (map_of (cache s) k = None
        \<or> (\<exists>e. map_of (cache s) k = Some e \<and> clock s - timestamp e > expirationDuration s)
      \<longrightarrow> get k s = (JNull, s\<lparr>cache := AList.delete k (cache s)\<rparr>)
          \<and> map_of (cache (snd (get k s))) k = None)
   \<and> (\<forall>k'. k' \<noteq> k \<longrightarrow> map_of (cache (snd (get k s))) k' = map_of (cache s) k')
   \<and> trace (snd (get k s)) = trace s
   \<and> (expirationDuration s = 600000 \<longrightarrow>
        (let s1 = set_cache k d1 (at_time 0 s);
             r2 = get k (at_time 500000 s1);
             r3 = get k (at_time 600001 (snd r2))
         in fst r2 = d1 \<and> fst r3 = JNull \<and> map_of (cache (snd r3)) k = None))"
proof (intro conjI allI impI)
  fix e
  assume "map_of (cache s) k = Some e \<and> clock s - timestamp e \<le> expirationDuration s"
  then show "get k s = (data e, s)"
    by (simp add: get_valid isExpired_def)
next
  assume a: "map_of (cache s) k = None
    \<or> (\<exists>e. map_of (cache s) k = Some e \<and> clock s - timestamp e > expirationDuration s)"
  then show g: "get k s = (JNull, s\<lparr>cache := AList.delete k (cache s)\<rparr>)"
    by (auto simp: get_absent get_expired isExpired_def)
  show "map_of (cache (snd (get k s))) k = None"
    by (simp add: g map_of_delete_same)
next
  fix k' assume "k' \<noteq> k"
  then show "map_of (cache (snd (get k s))) k' = map_of (cache s) k'"
    by (rule get_other_key)
next
  show "trace (snd (get k s)) = trace s"
    by (rule get_fields)
next
  assume ttl: "expirationDuration s = 600000"
  define s1 where "s1 = set_cache k d1 (at_time 0 s)"
  have e1: "map_of (cache (at_time 500000 s1)) k = Some \<lparr>data = d1, timestamp = 0\<rparr>"
    by (simp add: s1_def at_time_def map_of_set_cache set_cache_def update_conv')
  have v1: "\<not> isExpired (at_time 500000 s1) \<lparr>data = d1, timestamp = 0\<rparr>"
    by (simp add: isExpired_def at_time_def s1_def set_cache_def ttl)
  have r2: "get k (at_time 500000 s1) = (d1, at_time 500000 s1)"
    using get_valid [OF e1 v1] by simp
  have e2: "map_of (cache (at_time 600001 (at_time 500000 s1))) k
      = Some \<lparr>data = d1, timestamp = 0\<rparr>"
    by (simp add: s1_def at_time_def set_cache_def update_conv')
  have v2: "isExpired (at_time 600001 (at_time 500000 s1)) \<lparr>data = d1, timestamp = 0\<rparr>"
    by (simp add: isExpired_def at_time_def s1_def set_cache_def ttl)
  have r3: "get k (at_time 600001 (at_time 500000 s1))
      = (JNull, (at_time 600001 (at_time 500000 s1))
           \<lparr>cache := AList.delete k (cache (at_time 600001 (at_time 500000 s1)))\<rparr>)"
    by (rule get_expired [OF e2 v2])
  show "let s1 = set_cache k d1 (at_time 0 s);
             r2 = get k (at_time 500000 s1);
             r3 = get k (at_time 600001 (snd r2))
         in fst r2 = d1 \<and> fst r3 = JNull \<and> map_of (cache (snd r3)) k = None"
    unfolding Let_def s1_def [symmetric]
    by (simp add: r2 r3 map_of_delete_same)
qed

text \<open>The theorem at concrete inputs.\<close>

theorem get_returns_valid_or_evicts_witness:
  "get ''AAPL-1min-t0-t1'' (at_time 500000 (set_cache ''AAPL-1min-t0-t1'' D1 (default_TimeSeriesCache 0)))
     = (D1, at_time 500000 (set_cache ''AAPL-1min-t0-t1'' D1 (default_TimeSeriesCache 0)))
   \<and> fst (get ''AAPL-1min-t0-t1''
        (at_time 600001 (set_cache ''AAPL-1min-t0-t1'' D1 (default_TimeSeriesCache 0)))) = JNull
   \<and> fst (get ''MSFT-1min-t0-t1'' (default_TimeSeriesCache 0)) = JNull"
  using get_returns_valid_or_evicts
      [of "at_time 500000 (set_cache ''AAPL-1min-t0-t1'' D1 (default_TimeSeriesCache 0))"
          "''AAPL-1min-t0-t1''" D1]
    get_returns_valid_or_evicts
      [of "at_time 600001 (set_cache ''AAPL-1min-t0-t1'' D1 (default_TimeSeriesCache 0))"
          "''AAPL-1min-t0-t1''" D1]
    get_returns_valid_or_evicts [of "default_TimeSeriesCache 0" "''MSFT-1min-t0-t1''" D1]
  by (simp add: at_time_def set_cache_def default_TimeSeriesCache_def new_TimeSeriesCache_def)

subsection \<open>C3: a failing fetch ends the refresh pass and keeps the entries\<close>

text \<open>
  Claim C3, as amended. When the loop is at a valid entry and the fetch for its key
  fails, the loop ends there with that error, whatever entries are still to visit:
  the error leaves the callback. For a pass that ended with an error, the cache
  splits into the entries before the failing key, that key's entry and the entries
  after it; that key's entry and the entries after it are exactly as they were, the
  entries before it keep their keys, and the trace gained only visits of the keys up
  to the failing one, so no key after it was visited and nothing was logged about
  the failure. The error is the
  \<^verbatim>\<open>TypeError\<close> of the undefined \<^verbatim>\<open>this.fetchFunction\<close> or the error the fetch function
  gave for that key. Every entry from the failing key on is returned by \<open>get\<close> at
  every time within \<open>expirationDuration\<close> of its timestamp. For every key, the
  entry after the pass is the entry before it, or what a successful fetch for that
  key returned.
\<close>

theorem startAutoRefresh_failure_stops_pass:
  assumes "distinct (map fst (cache s))" and "startAutoRefresh s = (Some err, s')"
  shows "(\<forall>s0 k0 e0 rest f0 err0 d0.
        \<not> isExpired s0 e0 \<and> fetchFunction s0 = Some f0 \<and> f0 k0 (clock s0) = (Inl err0, d0)
        \<longrightarrow> refreshLoop ((k0, e0) # rest) s0
            = (Some err0, elapse d0 (record_call (CallFetchFunction k0)
                 (log [''Refreshing cache for'', k0] s0))))
    \<and> (\<exists>pre k e post pre' tr.
        cache s = pre @ (k, e) # post
      \<and> cache s' = pre' @ (k, e) # post \<and> map fst pre' = map fst pre
      \<and> trace s' = trace s @ tr
      \<and> set tr \<subseteq> (\<Union>k' \<in> insert k (fst ` set pre). visit k')
      \<and> (\<forall>k' \<in> fst ` set post. visit k' \<inter> set tr = {})
      \<and> (fetchFunction s = None \<and> err = TypeError ''this.fetchFunction is not a function''
          \<or> (\<exists>f t d. fetchFunction s = Some f \<and> f k t = (Inl err, d)))
      \<and> (\<forall>k' e' t. (k', e') \<in> set ((k, e) # post) \<and> t - timestamp e' \<le> expirationDuration s
            \<longrightarrow> fst (get k' (at_time t s')) = data e'))
    \<and> (\<forall>k e. map_of (cache s) k = Some e \<longrightarrow>
          map_of (cache s') k = Some e
          \<or> (\<exists>f t d v. fetchFunction s = Some f \<and> f k t = (Inr v, d)
                \<and> map_of (cache s') k = Some \<lparr>data = v, timestamp = t + int d\<rparr>))"
proof (intro conjI)
  show "\<forall>s0 k0 e0 rest f0 err0 d0.
        \<not> isExpired s0 e0 \<and> fetchFunction s0 = Some f0 \<and> f0 k0 (clock s0) = (Inl err0, d0)
        \<longrightarrow> refreshLoop ((k0, e0) # rest) s0
            = (Some err0, elapse d0 (record_call (CallFetchFunction k0)
                 (log [''Refreshing cache for'', k0] s0)))"
    using refreshLoop_failed by blast
next
  from assms(2) have run: "refreshLoop (cache s) s = (Some err, s')"
    by (simp add: startAutoRefresh_def)
  have c: "cache s = [] @ cache s" by simp
  have d: "distinct (map fst ([] @ cache s))" using assms(1) by simp
  have "\<exists>pre k e post pre' tr.
      cache s = pre @ (k, e) # post \<and> cache s' = pre' @ (k, e) # post
      \<and> map fst pre' = map fst pre \<and> trace s' = trace s @ tr
      \<and> set tr \<subseteq> (\<Union>k' \<in> insert k (fst ` set pre). visit k')
      \<and> expirationDuration s' = expirationDuration s
      \<and> (fetchFunction s = None \<and> err = TypeError ''this.fetchFunction is not a function''
          \<or> (\<exists>f t d. fetchFunction s = Some f \<and> f k t = (Inl err, d)))"
    using refreshLoop_stops [OF run c d] by simp
  then obtain pre k e post pre' tr where
    h: "cache s = pre @ (k, e) # post" "cache s' = pre' @ (k, e) # post"
      "map fst pre' = map fst pre" "trace s' = trace s @ tr"
      "set tr \<subseteq> (\<Union>k' \<in> insert k (fst ` set pre). visit k')"
      "expirationDuration s' = expirationDuration s"
      "fetchFunction s = None \<and> err = TypeError ''this.fetchFunction is not a function''
          \<or> (\<exists>f t d. fetchFunction s = Some f \<and> f k t = (Inl err, d))"
    by blast
  have keys: "map fst (cache s') = map fst (cache s)"
    by (simp add: h(1,2,3))
  have dist': "distinct (map fst (cache s'))"
    using assms(1) by (simp add: keys)
  have unvisited: "\<forall>k' \<in> fst ` set post. visit k' \<inter> set tr = {}"
  proof
    fix k' assume k': "k' \<in> fst ` set post"
    with assms(1) have "k' \<notin> insert k (fst ` set pre)"
      by (auto simp: h(1))
    then have "\<forall>k'' \<in> insert k (fst ` set pre). k' \<noteq> k''"
      by blast
    then have "\<forall>k'' \<in> insert k (fst ` set pre). visit k' \<inter> visit k'' = {}"
      using visit_disjoint by blast
    with h(5) show "visit k' \<inter> set tr = {}"
      by blast
  qed
  have retrievable: "\<forall>k' e' t. (k', e') \<in> set ((k, e) # post)
      \<and> t - timestamp e' \<le> expirationDuration s \<longrightarrow> fst (get k' (at_time t s')) = data e'"
  proof (intro allI impI)
    fix k' e' t
    assume a: "(k', e') \<in> set ((k, e) # post) \<and> t - timestamp e' \<le> expirationDuration s"
    then have "(k', e') \<in> set (cache s')"
      by (auto simp: h(2))
    with dist' have m: "map_of (cache (at_time t s')) k' = Some e'"
      by (simp add: at_time_fields)
    from a have v: "\<not> isExpired (at_time t s') e'"
      by (simp add: isExpired_def at_time_fields h(6))
    show "fst (get k' (at_time t s')) = data e'"
      by (simp add: get_valid [OF m v])
  qed
  from h(1,2,3,4,5,7) unvisited retrievable
  show "\<exists>pre k e post pre' tr.
        cache s = pre @ (k, e) # post
      \<and> cache s' = pre' @ (k, e) # post \<and> map fst pre' = map fst pre
      \<and> trace s' = trace s @ tr
      \<and> set tr \<subseteq> (\<Union>k' \<in> insert k (fst ` set pre). visit k')
      \<and> (\<forall>k' \<in> fst ` set post. visit k' \<inter> set tr = {})
      \<and> (fetchFunction s = None \<and> err = TypeError ''this.fetchFunction is not a function''
          \<or> (\<exists>f t d. fetchFunction s = Some f \<and> f k t = (Inl err, d)))
      \<and> (\<forall>k' e' t. (k', e') \<in> set ((k, e) # post) \<and> t - timestamp e' \<le> expirationDuration s
            \<longrightarrow> fst (get k' (at_time t s')) = data e')"
    by blast
next
  from assms(2) have run: "refreshLoop (cache s) s = (Some err, s')"
    by (simp add: startAutoRefresh_def)
  show "\<forall>k e. map_of (cache s) k = Some e \<longrightarrow>
          map_of (cache s') k = Some e
          \<or> (\<exists>f t d v. fetchFunction s = Some f \<and> f k t = (Inr v, d)
                \<and> map_of (cache s') k = Some \<lparr>data = v, timestamp = t + int d\<rparr>)"
    using refreshLoop_entry [OF run] by metis
qed

text \<open>The theorem at concrete inputs.\<close>

theorem startAutoRefresh_failure_stops_pass_witness:
  "map_of (cache (snd (startAutoRefresh cache_Y_Z))) ''Y'' = Some \<lparr>data = D1, timestamp = 0\<rparr>
   \<and> fst (get ''Y'' (at_time 600000 (snd (startAutoRefresh cache_Y_Z)))) = D1"
proof -
  have a: "distinct (map fst (cache cache_Y_Z))"
    by (simp add: cache_Y_Z_simps)
  have b: "startAutoRefresh cache_Y_Z =
      (Some (Error ''Unexpected API response''), snd (startAutoRefresh cache_Y_Z))"
    by (simp add: startAutoRefresh_cache_Y_Z)
  have y: "map_of (cache cache_Y_Z) ''Y'' = Some \<lparr>data = D1, timestamp = 0\<rparr>"
    by (simp add: cache_Y_Z_simps)
  from startAutoRefresh_failure_stops_pass [OF a b]
  have "\<forall>k e. map_of (cache cache_Y_Z) k = Some e \<longrightarrow>
      map_of (cache (snd (startAutoRefresh cache_Y_Z))) k = Some e
      \<or> (\<exists>f t d v. fetchFunction cache_Y_Z = Some f \<and> f k t = (Inr v, d)
            \<and> map_of (cache (snd (startAutoRefresh cache_Y_Z))) k
                = Some \<lparr>data = v, timestamp = t + int d\<rparr>)"
    by blast
  with y have "map_of (cache (snd (startAutoRefresh cache_Y_Z))) ''Y''
        = Some \<lparr>data = D1, timestamp = 0\<rparr>
      \<or> (\<exists>f t d v. fetchFunction cache_Y_Z = Some f \<and> f ''Y'' t = (Inr v, d)
            \<and> map_of (cache (snd (startAutoRefresh cache_Y_Z))) ''Y''
                = Some \<lparr>data = v, timestamp = t + int d\<rparr>)"
    by blast
  then have m: "map_of (cache (snd (startAutoRefresh cache_Y_Z))) ''Y''
        = Some \<lparr>data = D1, timestamp = 0\<rparr>"
    by (simp add: cache_Y_Z_simps fails_for_Y_def)
  have v: "\<not> isExpired (at_time 600000 (snd (startAutoRefresh cache_Y_Z)))
      \<lparr>data = D1, timestamp = 0\<rparr>"
    by (simp add: isExpired_def at_time_fields startAutoRefresh_cache_Y_Z elapse_fields
        record_call_fields log_fields cache_Y_Z_simps)
  have m': "map_of (cache (at_time 600000 (snd (startAutoRefresh cache_Y_Z)))) ''Y''
        = Some \<lparr>data = D1, timestamp = 0\<rparr>"
    using m by (simp add: at_time_fields)
  from m get_valid [OF m' v] show ?thesis
    by simp
qed

text \<open>The claim as stated fails: with valid entries for \<^verbatim>\<open>"Y"\<close> and \<^verbatim>\<open>"Z"\<close> and a
  fetch function that fails for \<^verbatim>\<open>"Y"\<close> only, the pass ends with the error after the
  call for \<^verbatim>\<open>"Y"\<close>; nothing else is logged, and \<^verbatim>\<open>"Z"\<close>, valid and fetchable, is
  neither visited nor refreshed.\<close>

theorem startAutoRefresh_failure_counterexample:
  "fst (startAutoRefresh cache_Y_Z) = Some (Error ''Unexpected API response'')
   \<and> trace (snd (startAutoRefresh cache_Y_Z))
       = [ConsoleLog [''Refreshing cache for'', ''Y''], CallFetchFunction ''Y'']
   \<and> map_of (cache cache_Y_Z) ''Z'' = Some \<lparr>data = D1, timestamp = 0\<rparr>
   \<and> \<not> isExpired cache_Y_Z \<lparr>data = D1, timestamp = 0\<rparr>
   \<and> fst (fails_for_Y ''Z'' 60250) = Inr D2
   \<and> map_of (cache (snd (startAutoRefresh cache_Y_Z))) ''Z'' = Some \<lparr>data = D1, timestamp = 0\<rparr>"
  by (simp add: startAutoRefresh_cache_Y_Z elapse_fields record_call_fields log_fields
      cache_Y_Z_simps isExpired_def fails_for_Y_def)

subsection \<open>C4: a failing loader leaves no entry\<close>

text \<open>
  Claim C4. When the key has no entry or an expired one and the loader fails,
  \<open>fetchData\<close> fails with the loader's own error, the key has no entry afterwards
  (an expired entry was deleted by the lookup, nothing was stored), and the other
  keys keep their entries.
\<close>

theorem fetchData_loader_failure:
  assumes "map_of (cache s) k = None \<or> (\<exists>e. map_of (cache s) k = Some e \<and> isExpired s e)"
    and "loader (clock s) = (Inl err, d)"
  shows "fst (fetchData k loader s) = Inl err
    \<and> map_of (cache (snd (fetchData k loader s))) k = None
    \<and> cache (snd (fetchData k loader s)) = AList.delete k (cache s)
    \<and> (\<forall>k'. k' \<noteq> k \<longrightarrow> map_of (cache (snd (fetchData k loader s))) k' = map_of (cache s) k')"
proof -
  from assms(1) have g: "get k s = (JNull, s\<lparr>cache := AList.delete k (cache s)\<rparr>)"
    by (auto simp: get_absent get_expired)
  then have m: "\<not> truthy (fst (get k s))"
    by simp
  have r: "fetchData k loader s =
      (Inl err, elapse d (record_call (CallLoader k)
         (log [''Cache miss for'', k] (s\<lparr>cache := AList.delete k (cache s)\<rparr>))))"
    by (simp add: fetchData_miss [OF m] assms(2) fetchData_resume_def g)
  show ?thesis
    by (simp add: r elapse_fields record_call_fields log_fields map_of_delete_same)
qed

text \<open>The theorem at concrete inputs.\<close>

theorem fetchData_loader_failure_witness:
  "fst (fetchData ''X'' (\<lambda>t. (Inl (Error ''Unexpected API response''), 250))
      (default_TimeSeriesCache 0)) = Inl (Error ''Unexpected API response'')
   \<and> map_of (cache (snd (fetchData ''X'' (\<lambda>t. (Inl (Error ''Unexpected API response''), 250))
      (default_TimeSeriesCache 0)))) ''X'' = None
   \<and> fst (fetchData ''X'' (\<lambda>t. (Inl (Error ''Unexpected API response''), 250))
      (at_time 600001 (set_cache ''X'' D1 (default_TimeSeriesCache 0))))
       = Inl (Error ''Unexpected API response'')
   \<and> cache (snd (fetchData ''X'' (\<lambda>t. (Inl (Error ''Unexpected API response''), 250))
      (at_time 600001 (set_cache ''X'' D1 (default_TimeSeriesCache 0))))) = []"
proof -
  let ?l = "\<lambda>t::int. (Inl (Error ''Unexpected API response'') :: thrown + jsval, 250::nat)"
  let ?s = "default_TimeSeriesCache 0"
  let ?s' = "at_time 600001 (set_cache ''X'' D1 (default_TimeSeriesCache 0))"
  have a: "map_of (cache ?s) ''X'' = None \<or> (\<exists>e. map_of (cache ?s) ''X'' = Some e \<and> isExpired ?s e)"
    by (simp add: default_TimeSeriesCache_def new_TimeSeriesCache_def)
  have a': "map_of (cache ?s') ''X'' = None
      \<or> (\<exists>e. map_of (cache ?s') ''X'' = Some e \<and> isExpired ?s' e)"
    by (simp add: isExpired_def at_time_def set_cache_def default_TimeSeriesCache_def
        new_TimeSeriesCache_def)
  have c: "cache ?s' = [(''X'', \<lparr>data = D1, timestamp = 0\<rparr>)]"
    by (simp add: at_time_def set_cache_def default_TimeSeriesCache_def new_TimeSeriesCache_def)
  show ?thesis
    using fetchData_loader_failure [OF a, of ?l _ 250]
      fetchData_loader_failure [OF a', of ?l _ 250] c
    by (simp add: default_TimeSeriesCache_def new_TimeSeriesCache_def)
qed

subsection \<open>C5: two parameter sets with one key\<close>

text \<open>
  Claim C5 says that distinct parameter sets never get the same key. Line 104 joins
  the four parameters with dashes, and the parameters may contain dashes themselves:
  the symbol \<^verbatim>\<open>BRK-B\<close> with the period \<^verbatim>\<open>1min\<close> and the symbol \<^verbatim>\<open>BRK\<close> with the
  period \<^verbatim>\<open>B-1min\<close> get the same key, and so do two different splits of a date range.
  All of them pass the check of line 100.
\<close>

theorem cacheKey_collision:
  "cacheKey ''BRK-B'' ''1min'' ''2024-01-02'' ''2024-01-03''
     = cacheKey ''BRK'' ''B-1min'' ''2024-01-02'' ''2024-01-03''
   \<and> (''BRK-B'', ''1min'') \<noteq> (''BRK'', ''B-1min'')
   \<and> \<not> missing_parameters ''BRK-B'' ''1min'' ''2024-01-02'' ''2024-01-03''
   \<and> \<not> missing_parameters ''BRK'' ''B-1min'' ''2024-01-02'' ''2024-01-03''
   \<and> cacheKey ''IBM'' ''1min'' ''2024-01'' ''02-2024-01-03''
     = cacheKey ''IBM'' ''1min'' ''2024-01-02'' ''2024-01-03''
   \<and> (''2024-01'', ''02-2024-01-03'') \<noteq> (''2024-01-02'', ''2024-01-03'')
   \<and> \<not> missing_parameters ''IBM'' ''1min'' ''2024-01'' ''02-2024-01-03''
   \<and> \<not> missing_parameters ''IBM'' ''1min'' ''2024-01-02'' ''2024-01-03''"
  by (simp add: cacheKey_def missing_parameters_def)

subsection \<open>C6: a valid entry that holds 0 is loaded again\<close>

text \<open>
  Claim C6 says that \<open>fetchData\<close> returns the cached payload without calling the
  loader whenever the key has a valid entry, and loads on an absent or expired one.
  The comments of lines 34 and 38 say the same. Line 33 tests the payload for
  truthiness instead. After a first call whose loader returned the number 0, the
  entry is valid at time 1000 and \<open>get\<close> returns the stored 0 with the state
  unchanged; a second call all the same logs a miss, calls its loader, returns the
  loader's result in place of the stored 0 and overwrites the entry.
\<close>

theorem fetchData_valid_falsy_entry_reloads:
  "map_of (cache cache_zero) ''AAPL'' = Some \<lparr>data = JNum 0, timestamp = 250\<rparr>
   \<and> \<not> isExpired cache_zero \<lparr>data = JNum 0, timestamp = 250\<rparr>
   \<and> get ''AAPL'' cache_zero = (JNum 0, cache_zero)
   \<and> fst (fetchData ''AAPL'' (\<lambda>t. (Inr D2, 250)) cache_zero) = Inr D2
   \<and> Inr D2 \<noteq> (Inr (JNum 0) :: thrown + jsval)
   \<and> trace (snd (fetchData ''AAPL'' (\<lambda>t. (Inr D2, 250)) cache_zero))
       = trace cache_zero @ [ConsoleLog [''Cache miss for'', ''AAPL''], CallLoader ''AAPL'']
   \<and> map_of (cache (snd (fetchData ''AAPL'' (\<lambda>t. (Inr D2, 250)) cache_zero))) ''AAPL''
       = Some \<lparr>data = D2, timestamp = 1250\<rparr>"
proof -
  have m: "map_of (cache cache_zero) ''AAPL'' = Some \<lparr>data = JNum 0, timestamp = 250\<rparr>"
    by (simp add: cache_zero_simps)
  have v: "\<not> isExpired cache_zero \<lparr>data = JNum 0, timestamp = 250\<rparr>"
    by (simp add: isExpired_def cache_zero_simps)
  have g: "get ''AAPL'' cache_zero = (JNum 0, cache_zero)"
    using get_valid [OF m v] by simp
  have f: "\<not> truthy (fst (get ''AAPL'' cache_zero))"
    by (simp add: g)
  have l: "(\<lambda>t::int. (Inr D2 :: thrown + jsval, 250::nat)) (clock cache_zero) = (Inr D2, 250)"
    by simp
  have r: "fst (fetchData ''AAPL'' (\<lambda>t. (Inr D2, 250)) cache_zero) = Inr D2"
    by (rule fetchData_miss_success(1) [where loader = "\<lambda>t. (Inr D2, 250)", OF f l])
  have c: "map_of (cache (snd (fetchData ''AAPL'' (\<lambda>t. (Inr D2, 250)) cache_zero))) ''AAPL''
      = Some \<lparr>data = D2, timestamp = 1250\<rparr>"
    using fetchData_miss_success(2) [where loader = "\<lambda>t. (Inr D2, 250)", OF f l]
    by (simp add: cache_zero_simps)
  have t: "trace (snd (fetchData ''AAPL'' (\<lambda>t. (Inr D2, 250)) cache_zero))
      = trace cache_zero @ [ConsoleLog [''Cache miss for'', ''AAPL''], CallLoader ''AAPL'']"
    by (rule fetchData_miss_trace [OF f])
  have d: "Inr D2 \<noteq> (Inr (JNum 0) :: thrown + jsval)"
    by (simp add: D2_def)
  from m v g r d t c show ?thesis by blast
qed

subsection \<open>C7: overlapping misses each call their loader\<close>

text \<open>
  Claim C7, as amended. A call of \<open>fetchData\<close> that misses is suspended at its
  \<^verbatim>\<open>await\<close> with its loader called. A second call for the same key that starts before
  the first one resumes, at any time, misses as well and calls its own loader: the
  trace holds two more loader calls for the key. When the calls resume, each returns
  the result of its own loader and stores it through \<open>set\<close>, so the entry holds the
  result of the call that resumed last.
\<close>

theorem fetchData_overlapping_misses_both_load:
  assumes "fst (fetchData_begin k s) = None"
  shows "fst (fetchData_begin k (at_time t (snd (fetchData_begin k s)))) = None
    \<and> count_list (trace (snd (fetchData_begin k (at_time t (snd (fetchData_begin k s))))))
          (CallLoader k)
        = count_list (trace s) (CallLoader k) + 2
    \<and> fetchData_resume k (Inr v1) s1 = (Inr v1, set_cache k v1 s1)
    \<and> fst (fetchData_resume k (Inr v2) (at_time t2 (snd (fetchData_resume k (Inr v1) s1))))
        = Inr v2
    \<and> map_of (cache (snd (fetchData_resume k (Inr v2)
          (at_time t2 (snd (fetchData_resume k (Inr v1) s1)))))) k
        = Some \<lparr>data = v2, timestamp = t2\<rparr>"
proof -
  from assms have m: "\<not> truthy (fst (get k s))"
    by (simp add: fetchData_begin_None_iff)
  let ?s1 = "at_time t (snd (fetchData_begin k s))"
  have "cache ?s1 = cache (snd (get k s))"
    by (simp add: at_time_fields fetchData_begin_miss_cache [OF m])
  then have m2: "\<not> truthy (fst (get k ?s1))"
    by (rule get_falsy_again [OF m])
  have a: "fst (fetchData_begin k ?s1) = None"
    by (simp add: fetchData_begin_None_iff m2)
  have b: "count_list (trace (snd (fetchData_begin k ?s1))) (CallLoader k)
      = count_list (trace s) (CallLoader k) + 2"
    by (simp add: fetchData_begin_miss_trace [OF m2] fetchData_begin_miss_trace [OF m]
        at_time_fields)
  have c: "fetchData_resume k (Inr v1) s1 = (Inr v1, set_cache k v1 s1)"
    by (simp add: fetchData_resume_def)
  have d: "fst (fetchData_resume k (Inr v2) (at_time t2 (snd (fetchData_resume k (Inr v1) s1))))
      = Inr v2"
    by (simp add: fetchData_resume_def)
  have e: "map_of (cache (snd (fetchData_resume k (Inr v2)
        (at_time t2 (snd (fetchData_resume k (Inr v1) s1)))))) k
      = Some \<lparr>data = v2, timestamp = t2\<rparr>"
    by (simp add: fetchData_resume_def map_of_set_cache at_time_fields)
  from a b c d e show ?thesis by blast
qed

text \<open>The theorem at concrete inputs.\<close>

theorem fetchData_overlapping_misses_both_load_witness:
  "fst (fetchData_begin ''AAPL'' (default_TimeSeriesCache 0)) = None
   \<and> fst (fetchData_begin ''AAPL''
        (at_time 5 (snd (fetchData_begin ''AAPL'' (default_TimeSeriesCache 0))))) = None
   \<and> count_list (trace (snd (fetchData_begin ''AAPL''
        (at_time 5 (snd (fetchData_begin ''AAPL'' (default_TimeSeriesCache 0)))))))
        (CallLoader ''AAPL'') = 2"
proof -
  have a: "fst (fetchData_begin ''AAPL'' (default_TimeSeriesCache 0)) = None"
    by (simp add: fetchData_begin_def get_def default_TimeSeriesCache_def
        new_TimeSeriesCache_def)
  have t: "trace (default_TimeSeriesCache 0) = []"
    by (simp add: default_TimeSeriesCache_def new_TimeSeriesCache_def)
  show ?thesis
    using fetchData_overlapping_misses_both_load [OF a, of 5] a t
    by simp
qed

text \<open>The claim as stated fails on the empty cache: two calls for one key that overlap
  make two loader calls, and the two callers get different results.\<close>

theorem fetchData_stampede_counterexample:
  "fst (fetchData_begin ''AAPL'' (default_TimeSeriesCache 0)) = None
   \<and> fst (fetchData_begin ''AAPL'' (snd (fetchData_begin ''AAPL'' (default_TimeSeriesCache 0))))
       = None
   \<and> trace (snd (fetchData_begin ''AAPL''
        (snd (fetchData_begin ''AAPL'' (default_TimeSeriesCache 0)))))
       = [ConsoleLog [''Cache miss for'', ''AAPL''], CallLoader ''AAPL'',
          ConsoleLog [''Cache miss for'', ''AAPL''], CallLoader ''AAPL'']
   \<and> fst (fetchData_resume ''AAPL'' (Inr D1)
        (snd (fetchData_begin ''AAPL''
          (snd (fetchData_begin ''AAPL'' (default_TimeSeriesCache 0)))))) = Inr D1
   \<and> fst (fetchData_resume ''AAPL'' (Inr D2)
        (snd (fetchData_resume ''AAPL'' (Inr D1)
          (snd (fetchData_begin ''AAPL''
            (snd (fetchData_begin ''AAPL'' (default_TimeSeriesCache 0)))))))) = Inr D2
   \<and> D1 \<noteq> D2"
  by (simp add: fetchData_begin_def fetchData_resume_def get_def default_TimeSeriesCache_def
      new_TimeSeriesCache_def log_def record_call_def set_cache_def D1_def D2_def)

subsection \<open>C8: repeated get\<close>

text \<open>
  Claim C8. Take any sequence of calls of \<open>get\<close> and \<open>set\<close>, at any times, with no
  \<^verbatim>\<open>set(k, ...)\<close> among them. When \<open>k\<close> has an entry, the calls \<^verbatim>\<open>get(k)\<close> return its
  payload as long as they come within \<open>expirationDuration\<close> of its timestamp; the
  first one that comes later returns \<^verbatim>\<open>null\<close> and evicts the entry, and every
  \<^verbatim>\<open>get(k)\<close> after it returns \<^verbatim>\<open>null\<close> too. The entry is still there after the sequence
  exactly when no \<^verbatim>\<open>get(k)\<close> came too late. When \<open>k\<close> has no entry, every \<^verbatim>\<open>get(k)\<close>
  returns \<^verbatim>\<open>null\<close>.
\<close>

theorem get_repeated:
  assumes "no_set_of k calls"
  shows "(\<forall>e. map_of (cache s) k = Some e \<longrightarrow>
        fst (gets_of k calls s) =
          replicate (length (takeWhile (\<lambda>t. t - timestamp e \<le> expirationDuration s)
             (get_times k calls))) (data e)
          @ replicate (length (dropWhile (\<lambda>t. t - timestamp e \<le> expirationDuration s)
             (get_times k calls))) JNull
        \<and> map_of (cache (snd (gets_of k calls s))) k =
            (if \<forall>t \<in> set (get_times k calls). t - timestamp e \<le> expirationDuration s
             then Some e else None))
    \<and> (map_of (cache s) k = None \<longrightarrow>
        fst (gets_of k calls s) = replicate (length (get_times k calls)) JNull
        \<and> map_of (cache (snd (gets_of k calls s))) k = None)"
  using gets_of_present [OF assms] gets_of_absent [OF assms] by blast

text \<open>The theorem at concrete inputs.\<close>

theorem get_repeated_witness:
  "fst (gets_of ''AAPL''
      [(100000, Get ''AAPL''), (200000, Set ''MSFT'' D2), (500000, Get ''AAPL''),
       (600001, Get ''AAPL''), (600002, Get ''MSFT''), (700000, Get ''AAPL'')]
      (set_cache ''AAPL'' D1 (default_TimeSeriesCache 0)))
     = [D1, D1, JNull, JNull]
   \<and> map_of (cache (snd (gets_of ''AAPL''
      [(100000, Get ''AAPL''), (200000, Set ''MSFT'' D2), (500000, Get ''AAPL''),
       (600001, Get ''AAPL''), (600002, Get ''MSFT''), (700000, Get ''AAPL'')]
      (set_cache ''AAPL'' D1 (default_TimeSeriesCache 0))))) ''AAPL'' = None"
proof -
  let ?calls = "[(100000, Get ''AAPL''), (200000, Set ''MSFT'' D2), (500000, Get ''AAPL''),
       (600001, Get ''AAPL''), (600002, Get ''MSFT''), (700000, Get ''AAPL'')]"
  let ?s = "set_cache ''AAPL'' D1 (default_TimeSeriesCache 0)"
  have a: "no_set_of ''AAPL'' ?calls"
    by (simp add: no_set_of_def)
  have e: "map_of (cache ?s) ''AAPL'' = Some \<lparr>data = D1, timestamp = 0\<rparr>"
    by (simp add: set_cache_def default_TimeSeriesCache_def new_TimeSeriesCache_def)
  have t: "get_times ''AAPL'' ?calls = [100000, 500000, 600001, 700000]"
    by (simp add: get_times_def)
  have d: "expirationDuration ?s = 600000"
    by (simp add: set_cache_def default_TimeSeriesCache_def new_TimeSeriesCache_def)
  show ?thesis
    using get_repeated [OF a, of ?s] e
    unfolding t d
    by simp
qed

subsection \<open>C9: an error of the cache's own\<close>

text \<open>
  Claim C9 says that every failure the cache surfaces comes from a fetch function.
  \<open>get\<close> and \<open>set_cache\<close> have no failing branch, and \<open>fetchData\<close> fails only with
  its loader's error (\<open>fetchData_failure_origin\<close>). The refresh pass does not keep to
  it: on every cache whose \<^verbatim>\<open>this.fetchFunction\<close> is \<^verbatim>\<open>undefined\<close>, as the
  constructor leaves it, and that holds a valid entry, the pass ends with a
  \<^verbatim>\<open>TypeError\<close> raised by line 49 itself. The trace gains the log line only: no
  fetch function was called. The cache is unchanged.
\<close>

theorem startAutoRefresh_throws_TypeError:
  assumes "fetchFunction s = None" and "map_of (cache s) k = Some e" and "\<not> isExpired s e"
  shows "fst (startAutoRefresh s) = Some (TypeError ''this.fetchFunction is not a function'')
    \<and> cache (snd (startAutoRefresh s)) = cache s
    \<and> (\<exists>k'. trace (snd (startAutoRefresh s)) = trace s @ [ConsoleLog [''Refreshing cache for'', k']])"
proof -
  from assms(2) have "(k, e) \<in> set (cache s)"
    by (rule map_of_SomeD)
  with assms(3) have "\<exists>ke \<in> set (cache s). \<not> isExpired s (snd ke)"
    by force
  from refreshLoop_undefined_fetchFunction [OF assms(1) this]
  obtain k' where "fst (startAutoRefresh s) = Some (TypeError ''this.fetchFunction is not a function'')"
    and "snd (startAutoRefresh s) = log [''Refreshing cache for'', k'] s"
    by (auto simp: startAutoRefresh_def)
  then show ?thesis
    by (simp add: log_fields)
qed

text \<open>The theorem at concrete inputs.\<close>

theorem startAutoRefresh_throws_TypeError_witness:
  "fst (startAutoRefresh (at_time 60000 cache_AAPL))
     = Some (TypeError ''this.fetchFunction is not a function'')
   \<and> cache (snd (startAutoRefresh (at_time 60000 cache_AAPL))) = cache cache_AAPL"
proof -
  let ?s = "at_time 60000 cache_AAPL"
  have a: "fetchFunction ?s = None"
    by (simp add: at_time_fields cache_AAPL_simps)
  have b: "map_of (cache ?s) ''AAPL-1min-t0-t1'' = Some \<lparr>data = D1, timestamp = 0\<rparr>"
    by (simp add: at_time_fields cache_AAPL_simps)
  have c: "\<not> isExpired ?s \<lparr>data = D1, timestamp = 0\<rparr>"
    by (simp add: isExpired_def at_time_fields cache_AAPL_simps)
  show ?thesis
    using startAutoRefresh_throws_TypeError [OF a b c]
    by (simp add: at_time_fields)
qed

subsection \<open>C10: a valid entry with a falsy payload is a miss for fetchData\<close>

text \<open>
  Claim C10. For a key whose entry is valid and holds \<^verbatim>\<open>null\<close>, 0, the empty string,
  \<^verbatim>\<open>NaN\<close> or \<^verbatim>\<open>false\<close>, \<open>fetchData\<close> does not return at the lookup: it logs a miss and
  calls the loader, and when the loader succeeds it overwrites the entry through
  \<open>set\<close> and returns the loader's result, not the stored payload.
\<close>

theorem fetchData_falsy_payload_is_miss:
  assumes "map_of (cache s) k = Some e" and "\<not> isExpired s e"
    and "data e \<in> {JNull, JNum 0, JStr [], JNaN, JBool False}"
  shows "fst (fetchData_begin k s) = None
    \<and> trace (snd (fetchData k loader s))
         = trace s @ [ConsoleLog [''Cache miss for'', k], CallLoader k]
    \<and> (\<forall>v d. loader (clock s) = (Inr v, d) \<longrightarrow>
          fst (fetchData k loader s) = Inr v
          \<and> map_of (cache (snd (fetchData k loader s))) k
              = Some \<lparr>data = v, timestamp = clock s + int d\<rparr>)"
proof -
  from assms(3) have f: "\<not> truthy (data e)"
    by auto
  have g: "get k s = (data e, s)"
    by (rule get_valid [OF assms(1,2)])
  have m: "\<not> truthy (fst (get k s))"
    by (simp add: g f)
  have "fst (fetchData_begin k s) = None"
    by (simp add: fetchData_begin_miss [OF m])
  moreover have "trace (snd (fetchData k loader s))
      = trace s @ [ConsoleLog [''Cache miss for'', k], CallLoader k]"
    by (rule fetchData_miss_trace [OF m])
  moreover have "\<forall>v d. loader (clock s) = (Inr v, d) \<longrightarrow>
      fst (fetchData k loader s) = Inr v
      \<and> map_of (cache (snd (fetchData k loader s))) k
          = Some \<lparr>data = v, timestamp = clock s + int d\<rparr>"
    using fetchData_miss_success [where loader = loader, OF m] by blast
  ultimately show ?thesis by blast
qed

text \<open>The theorem at concrete inputs.\<close>

theorem fetchData_falsy_payload_is_miss_witness:
  "fst (fetchData ''AAPL'' (\<lambda>t. (Inr D2, 250))
      (at_time 1000 (set_cache ''AAPL'' JNull (default_TimeSeriesCache 0)))) = Inr D2
   \<and> map_of (cache (snd (fetchData ''AAPL'' (\<lambda>t. (Inr D2, 250))
      (at_time 1000 (set_cache ''AAPL'' JNull (default_TimeSeriesCache 0)))))) ''AAPL''
       = Some \<lparr>data = D2, timestamp = 1250\<rparr>"
proof -
  let ?s = "at_time 1000 (set_cache ''AAPL'' JNull (default_TimeSeriesCache 0))"
  have a: "map_of (cache ?s) ''AAPL'' = Some \<lparr>data = JNull, timestamp = 0\<rparr>"
    by (simp add: at_time_def set_cache_def default_TimeSeriesCache_def new_TimeSeriesCache_def)
  have b: "\<not> isExpired ?s \<lparr>data = JNull, timestamp = 0\<rparr>"
    by (simp add: isExpired_def at_time_def set_cache_def default_TimeSeriesCache_def
        new_TimeSeriesCache_def)
  have c: "data \<lparr>data = JNull, timestamp = 0\<rparr> \<in> {JNull, JNum 0, JStr [], JNaN, JBool False}"
    by simp
  have d: "clock ?s = 1000"
    by (simp add: at_time_def)
  show ?thesis
    using fetchData_falsy_payload_is_miss [OF a b c, of "\<lambda>t. (Inr D2, 250)"] d
    by simp
qed

end
